theory Spec2Isabelle
  imports Main "HOL-Library.Countable" "HOL-Library.Word" "HOL-Library.AList"
begin

section \<open>Data model (models/models.go)\<close>

text \<open>
  \<^verbatim>\<open>type KeyState string\<close> with the two constants \<^verbatim>\<open>PROCESSING\<close> and \<^verbatim>\<open>COMPLETE\<close>.
  The Go type is an open string type, so the model keeps it a string and the two
  constants are the two literals of the source.
\<close>

type_synonym bytes = "8 word list"
type_synonym int64 = "64 word"
type_synonym KeyState = string

definition StateProcessing :: KeyState where
  "StateProcessing = ''PROCESSING''"

definition StateComplete :: KeyState where
  "StateComplete = ''COMPLETE''"

record CachedEntry =
  State :: KeyState
  BodyHash :: string
  StatusCode :: int
  ResponseBody :: bytes
  CreatedAt :: int64

section \<open>The entry store (store/memory.go)\<close>

text \<open>
  \<^verbatim>\<open>MemoryStore\<close> holds the Go map \<^verbatim>\<open>data\<close> and the time-to-live \<^verbatim>\<open>ttl\<close>, a
  \<^verbatim>\<open>time.Duration\<close>, that is an int64 count of nanoseconds. The map is an association
  list; \<open>Set\<close> keeps its keys distinct, as a Go map's are. The mutex and the condition
  variable are not data: every operation below is one critical section, and is one
  atomic step of the gateway further down.
\<close>

record MemoryStore =
  data :: "(string \<times> CachedEntry) list"
  ttl :: int64

definition NewMemoryStore :: "int64 \<Rightarrow> MemoryStore" where
  "NewMemoryStore t = \<lparr>data = [], ttl = t\<rparr>"

definition Get :: "MemoryStore \<Rightarrow> string \<Rightarrow> CachedEntry option" where
  "Get ms key = map_of (data ms) key"

definition Set :: "MemoryStore \<Rightarrow> string \<Rightarrow> CachedEntry \<Rightarrow> MemoryStore" where
  "Set ms key entry = ms\<lparr>data := AList.update key entry (data ms)\<rparr>"

text \<open>
  \<^verbatim>\<open>WaitForComplete\<close> takes the lock and loops: it reads the entry, returns it when it
  is absent or COMPLETE, and otherwise parks on the condition variable until the next
  wake-up, where it reads again. One pass of the loop is \<open>WaitForComplete_pass\<close>. The
  whole call is \<open>WaitForComplete\<close> over the stores the caller observes, first at call
  time and then at each wake-up, genuine or spurious; \<open>None\<close> says that the call is
  still parked after the last of them.
\<close>

datatype wait = Returned "CachedEntry option" | Parked

definition WaitForComplete_pass :: "MemoryStore \<Rightarrow> string \<Rightarrow> wait" where
  "WaitForComplete_pass ms key =
     (case map_of (data ms) key of
        None \<Rightarrow> Returned None
      | Some entry \<Rightarrow>
          if State entry = StateComplete then Returned (Some entry) else Parked)"

fun WaitForComplete :: "MemoryStore list \<Rightarrow> string \<Rightarrow> CachedEntry option option" where
  "WaitForComplete [] key = None"
| "WaitForComplete (ms # later) key =
     (case WaitForComplete_pass ms key of
        Returned entry \<Rightarrow> Some entry
      | Parked \<Rightarrow> WaitForComplete later key)"

text \<open>
  \<^verbatim>\<open>sweep\<close> compares \<^verbatim>\<open>now - entry.CreatedAt\<close>, an int64 subtraction of Unix seconds,
  with \<^verbatim>\<open>int64(ms.ttl.Seconds())\<close>. \<^verbatim>\<open>Duration.Seconds\<close> is
  \<^verbatim>\<open>sec := d / Second; nsec := d % Second; return float64(sec) + float64(nsec)/1e9\<close>
  in float64 arithmetic, with Go's truncating integer division, and the conversion of the
  result to int64 truncates towards zero.

  A finite float64 is a rational number. \<open>float64 x\<close> rounds \<open>x\<close> to the nearest
  float64, a tie to the even significand: the significand has 53 bits, and the exponent
  of its leading bit is at most 1023 and at least -1022 (smaller numbers are subnormal,
  spaced \<open>2 powi (- 1074)\<close> apart). \<open>exponent\<close> looks for that exponent from 1023
  downwards. Overflow to infinity is left out: what arises from an int64 is far below
  \<open>2 powi 1024\<close>.
\<close>

definition round_even :: "rat \<Rightarrow> int" where
  "round_even x =
     (if x - of_int \<lfloor>x\<rfloor> < 1 / 2 then \<lfloor>x\<rfloor>
      else if 1 / 2 < x - of_int \<lfloor>x\<rfloor> then \<lfloor>x\<rfloor> + 1
      else if even \<lfloor>x\<rfloor> then \<lfloor>x\<rfloor> else \<lfloor>x\<rfloor> + 1)"

fun exponent_from :: "nat \<Rightarrow> int \<Rightarrow> rat \<Rightarrow> int" where
  "exponent_from 0 e x = e"
| "exponent_from (Suc n) e x = (if 2 powi e \<le> \<bar>x\<bar> then e else exponent_from n (e - 1) x)"

definition exponent :: "rat \<Rightarrow> int" where
  "exponent x = exponent_from 2045 1023 x"

definition float64 :: "rat \<Rightarrow> rat" where
  "float64 x = of_int (round_even (x / 2 powi (exponent x - 52))) * 2 powi (exponent x - 52)"

definition Second :: int where
  "Second = 1000000000"

definition Minute :: int64 where
  "Minute = 60 * 1000000000"

definition Hour :: int64 where
  "Hour = 60 * Minute"

definition Duration_Seconds :: "int \<Rightarrow> rat" where
  "Duration_Seconds d =
     (let sec = (if 0 \<le> d then d div Second else - ((- d) div Second));
          nsec = d - sec * Second
      in float64 (float64 (of_int sec) + float64 (float64 (of_int nsec) / 1000000000)))"

definition int64_of_float64 :: "rat \<Rightarrow> int" where
  "int64_of_float64 v = (if 0 \<le> v then \<lfloor>v\<rfloor> else - \<lfloor>- v\<rfloor>)"

definition Seconds_int64 :: "int64 \<Rightarrow> int" where
  "Seconds_int64 d = int64_of_float64 (Duration_Seconds (sint d))"

definition ageInSeconds :: "int64 \<Rightarrow> CachedEntry \<Rightarrow> int64" where
  "ageInSeconds now entry = now - CreatedAt entry"

definition expired :: "int64 \<Rightarrow> int64 \<Rightarrow> CachedEntry \<Rightarrow> bool" where
  "expired now t entry \<longleftrightarrow> sint (ageInSeconds now entry) > Seconds_int64 t"

text \<open>
  The loop over the map: each entry is visited once, an expired one is deleted and
  counted. The result is the entries that stay and the counter \<^verbatim>\<open>evicted\<close>.
\<close>

fun sweep_range :: "int64 \<Rightarrow> int64 \<Rightarrow> (string \<times> CachedEntry) list
    \<Rightarrow> (string \<times> CachedEntry) list \<times> nat" where
  "sweep_range now t [] = ([], 0)"
| "sweep_range now t ((key, entry) # rest) =
     (case sweep_range now t rest of
        (kept, evicted) \<Rightarrow>
          if expired now t entry then (kept, evicted + 1)
          else ((key, entry) # kept, evicted))"

text \<open>
  \<^verbatim>\<open>sweep\<close> has no result in the source. What leaves it, beside the updated store, is
  the line it prints with \<^verbatim>\<open>log.Printf\<close> when the counter is positive.
\<close>

datatype log_line = SweeperEvicted nat

definition sweep :: "int64 \<Rightarrow> MemoryStore \<Rightarrow> MemoryStore \<times> log_line list" where
  "sweep now ms =
     (case sweep_range now (ttl ms) (data ms) of
        (kept, evicted) \<Rightarrow>
          (ms\<lparr>data := kept\<rparr>, if evicted > 0 then [SweeperEvicted evicted] else []))"

text \<open>
  \<^verbatim>\<open>StartSweeper\<close> starts a goroutine that calls \<^verbatim>\<open>sweep\<close> at every tick of
  \<^verbatim>\<open>time.NewTicker(10 * time.Minute)\<close>. Its model is the period of that ticker; when
  the sweeps happen is left to the schedule of the gateway below.
\<close>

definition StartSweeper :: "MemoryStore \<Rightarrow> int64" where
  "StartSweeper ms = 10 * Minute"

section \<open>Configuration (config/config.go) and wiring (main.go)\<close>

record Config =
  Port :: string
  ProcessingDelay :: int64
  KeyTTL :: int64
  SweepInterval :: int64

definition Default :: Config where
  "Default = \<lparr>Port = '':8080'', ProcessingDelay = 2 * 1000000000,
     KeyTTL = 24 * Hour, SweepInterval = 10 * Minute\<rparr>"

text \<open>
  \<^verbatim>\<open>main\<close> builds the store from \<^verbatim>\<open>cfg.KeyTTL\<close> and starts the sweeper on it. The
  source takes \<^verbatim>\<open>cfg\<close> from \<^verbatim>\<open>config.Default()\<close>; here it is an argument, so that the
  wiring can be read at any configuration. The result is the store and the period of
  the sweeper's ticker.
\<close>

definition main_wiring :: "Config \<Rightarrow> MemoryStore \<times> int64" where
  "main_wiring cfg = (let memStore = NewMemoryStore (KeyTTL cfg) in (memStore, StartSweeper memStore))"

section \<open>The middleware (middleware/idempotency.go)\<close>

text \<open>
  A request as the middleware reads it: the \<^verbatim>\<open>Idempotency-Key\<close> header (empty when the
  header is missing) and the result of \<^verbatim>\<open>io.ReadAll(r.Body)\<close>, \<open>None\<close> when the read
  fails.
\<close>

record request =
  IdempotencyKey :: string
  Body :: "bytes option"

text \<open>
  The downstream handler talks to the \<^verbatim>\<open>responseRecorder\<close> through \<^verbatim>\<open>WriteHeader\<close> and
  \<^verbatim>\<open>Write\<close>. The recorder starts with status 200, keeps the code of the last
  \<^verbatim>\<open>WriteHeader\<close> and appends every \<^verbatim>\<open>Write\<close> to its buffer.
\<close>

datatype writer_call = WriteHeader int | Write bytes

record responseRecorder =
  statusCode :: int
  body :: bytes

fun recorder_call :: "responseRecorder \<Rightarrow> writer_call \<Rightarrow> responseRecorder" where
  "recorder_call rr (WriteHeader code) = rr\<lparr>statusCode := code\<rparr>"
| "recorder_call rr (Write b) = rr\<lparr>body := body rr @ b\<rparr>"

definition record_calls :: "writer_call list \<Rightarrow> responseRecorder" where
  "record_calls calls = foldl recorder_call \<lparr>statusCode = 200, body = []\<rparr> calls"

text \<open>
  What the middleware answers: the handler's own response passed through (\<open>Executed\<close>,
  with the status and body the recorder captured), \<^verbatim>\<open>replayResponse\<close> of a cached
  entry (\<open>Replayed\<close>, sent with \<^verbatim>\<open>X-Cache-Hit: true\<close>), 409 (\<open>Conflict\<close>), 400 for a
  missing key (\<open>InvalidKey\<close>) and 500 for an unreadable body (\<open>ReadError\<close>).
  \<open>Replayed code bytes\<close> stands for the calls \<^verbatim>\<open>w.WriteHeader(code)\<close> and
  \<^verbatim>\<open>w.Write(bytes)\<close> that \<^verbatim>\<open>replayResponse\<close> makes. What the writer does with them is
  not code of this repository: a writer of net/http panics on the code 0, the recorder of
  \<^verbatim>\<open>main.go\<close> stores it.
\<close>

datatype outcome = Executed int bytes | Replayed int bytes | Conflict | InvalidKey | ReadError

definition replayResponse :: "CachedEntry \<Rightarrow> outcome" where
  "replayResponse entry = Replayed (StatusCode entry) (ResponseBody entry)"

text \<open>Lines 88 to 103: the comparison of the body hash, then the replay of \<^verbatim>\<open>existing\<close>.\<close>

definition check_existing :: "CachedEntry \<Rightarrow> string \<Rightarrow> outcome" where
  "check_existing existing bodyHash =
     (if BodyHash existing \<noteq> bodyHash then Conflict else replayResponse existing)"

text \<open>
  One request runs the closure of \<^verbatim>\<open>Idempotency\<close> in its own goroutine. Between two
  calls on the store other goroutines may run, so the closure is cut at its store calls
  and at the call of the handler. A goroutine is at one of these points:
  \<^item> \<open>Start\<close>: before line 49;
  \<^item> \<open>Waiting existing bodyHash\<close>: \<^verbatim>\<open>Get\<close> returned a PROCESSING entry, the goroutine
    is at or inside \<^verbatim>\<open>WaitForComplete\<close> (line 80);
  \<^item> \<open>FirstSight rawBody bodyHash\<close>: \<^verbatim>\<open>Get\<close> returned nil, before the first \<^verbatim>\<open>Set\<close>
    (line 109);
  \<^item> \<open>Serving rawBody bodyHash\<close>: before \<^verbatim>\<open>next.ServeHTTP\<close> (line 123);
  \<^item> \<open>Served bodyHash code body\<close>: the handler returned, before the second \<^verbatim>\<open>Set\<close>
    (line 128);
  \<^item> \<open>Done outcome\<close>: the closure returned.
\<close>

datatype pc =
    Start
  | Waiting CachedEntry string
  | FirstSight bytes string
  | Serving bytes string
  | Served string int bytes
  | Done outcome

record thread =
  req :: request
  at :: pc

text \<open>
  The trace lists the calls on the store and on the handler in the order the lock
  serialises them, each with the index of the goroutine that made it; a \<^verbatim>\<open>Get\<close> is
  listed with what it returned.
\<close>

datatype event =
    EvGet nat string "CachedEntry option"
  | EvSet nat string CachedEntry
  | EvWait nat string
  | EvServe nat string bytes "writer_call list"
  | EvSweep int64

text \<open>
  The gateway: the store, the goroutines serving requests, the wall clock
  (\<^verbatim>\<open>time.Now().Unix()\<close>), the state of the downstream handler, the trace and the lines
  printed by the sweeper.
\<close>

record 'h gateway =
  store :: MemoryStore
  threads :: "thread list"
  clock :: int64
  downstream :: 'h
  trace :: "event list"
  printed :: "log_line list"

definition goto :: "nat \<Rightarrow> pc \<Rightarrow> 'h gateway \<Rightarrow> 'h gateway" where
  "goto i p g = g\<lparr>threads := (threads g)[i := (threads g ! i)\<lparr>at := p\<rparr>]\<rparr>"

definition emit :: "event \<Rightarrow> 'h gateway \<Rightarrow> 'h gateway" where
  "emit ev g = g\<lparr>trace := trace g @ [ev]\<rparr>"

text \<open>
  One atomic step of goroutine \<open>i\<close>. \<open>hashBody\<close> stands for the SHA-256 hex digest of
  the source and \<open>nxt\<close> for the wrapped handler: from its state, the key and the body of
  the request it gives the calls it makes on the recorder and its new state. What the
  closure computes on its own variables between two calls on the store is part of the
  step of the earlier call. The run of the handler is one step: the handler does not
  touch the store, so only its place among the store calls matters.
\<close>

definition Idempotency_step ::
  "(bytes \<Rightarrow> string) \<Rightarrow> ('h \<Rightarrow> string \<Rightarrow> bytes \<Rightarrow> writer_call list \<times> 'h)
    \<Rightarrow> nat \<Rightarrow> 'h gateway \<Rightarrow> 'h gateway" where
  "Idempotency_step hashBody nxt i g =
     (let idempotencyKey = IdempotencyKey (req (threads g ! i)) in
      case at (threads g ! i) of
        Start \<Rightarrow>
          if idempotencyKey = [] then goto i (Done InvalidKey) g
          else (case Body (req (threads g ! i)) of
              None \<Rightarrow> goto i (Done ReadError) g
            | Some rawBody \<Rightarrow>
                (case Get (store g) idempotencyKey of
                   None \<Rightarrow>
                     emit (EvGet i idempotencyKey None)
                       (goto i (FirstSight rawBody (hashBody rawBody)) g)
                 | Some existing \<Rightarrow>
                     if State existing = StateProcessing
                     then emit (EvGet i idempotencyKey (Some existing))
                       (goto i (Waiting existing (hashBody rawBody)) g)
                     else emit (EvGet i idempotencyKey (Some existing))
                       (goto i (Done (check_existing existing (hashBody rawBody))) g)))
      | Waiting existing bodyHash \<Rightarrow>
          (case WaitForComplete_pass (store g) idempotencyKey of
             Parked \<Rightarrow> emit (EvWait i idempotencyKey) g
           | Returned (Some completed) \<Rightarrow>
               emit (EvWait i idempotencyKey) (goto i (Done (replayResponse completed)) g)
           | Returned None \<Rightarrow>
               emit (EvWait i idempotencyKey)
                 (goto i (Done (check_existing existing bodyHash)) g))
      | FirstSight rawBody bodyHash \<Rightarrow>
          (let entry = \<lparr>State = StateProcessing, BodyHash = bodyHash, StatusCode = 0,
                 ResponseBody = [], CreatedAt = clock g\<rparr>
           in emit (EvSet i idempotencyKey entry)
                (goto i (Serving rawBody bodyHash)
                   (g\<lparr>store := Set (store g) idempotencyKey entry\<rparr>)))
      | Serving rawBody bodyHash \<Rightarrow>
          (case nxt (downstream g) idempotencyKey rawBody of
             (calls, d') \<Rightarrow>
               emit (EvServe i idempotencyKey rawBody calls)
                 (goto i (Served bodyHash (statusCode (record_calls calls))
                            (body (record_calls calls)))
                    (g\<lparr>downstream := d'\<rparr>)))
      | Served bodyHash code recorded \<Rightarrow>
          (let entry = \<lparr>State = StateComplete, BodyHash = bodyHash, StatusCode = code,
                 ResponseBody = recorded, CreatedAt = clock g\<rparr>
           in emit (EvSet i idempotencyKey entry)
                (goto i (Done (Executed code recorded))
                   (g\<lparr>store := Set (store g) idempotencyKey entry\<rparr>)))
      | Done result \<Rightarrow> g)"

text \<open>
  What can happen next in the gateway: a request arrives and gets a goroutine, a
  goroutine takes its next step, the sweeper's ticker fires, or the wall clock moves.
\<close>

datatype action = Arrive request | Run nat | Sweep | Tick int64

fun step ::
  "(bytes \<Rightarrow> string) \<Rightarrow> ('h \<Rightarrow> string \<Rightarrow> bytes \<Rightarrow> writer_call list \<times> 'h)
    \<Rightarrow> 'h gateway \<Rightarrow> action \<Rightarrow> 'h gateway" where
  "step hashBody nxt g (Arrive r) = g\<lparr>threads := threads g @ [\<lparr>req = r, at = Start\<rparr>]\<rparr>"
| "step hashBody nxt g (Run i) =
     (if i < length (threads g) then Idempotency_step hashBody nxt i g else g)"
| "step hashBody nxt g Sweep =
     (case sweep (clock g) (store g) of
        (ms, lines) \<Rightarrow>
          g\<lparr>store := ms, printed := printed g @ lines,
            trace := trace g @ [EvSweep (clock g)]\<rparr>)"
| "step hashBody nxt g (Tick now) = g\<lparr>clock := now\<rparr>"

definition run ::
  "(bytes \<Rightarrow> string) \<Rightarrow> ('h \<Rightarrow> string \<Rightarrow> bytes \<Rightarrow> writer_call list \<times> 'h)
    \<Rightarrow> 'h gateway \<Rightarrow> action list \<Rightarrow> 'h gateway" where
  "run hashBody nxt g schedule = foldl (step hashBody nxt) g schedule"

definition boot :: "int64 \<Rightarrow> int64 \<Rightarrow> 'h \<Rightarrow> 'h gateway" where
  "boot t now d = \<lparr>store = NewMemoryStore t, threads = [], clock = now, downstream = d,
     trace = [], printed = []\<rparr>"

section \<open>Reading the trace\<close>

text \<open>
  \<open>accessed i ev\<close>: the call \<open>ev\<close> was made by goroutine \<open>i\<close>. \<open>accesses_by\<close>,
  \<open>writes_by\<close> and \<open>serves_by\<close> select from a trace the calls of one goroutine, its
  \<^verbatim>\<open>Set\<close> calls and its calls of the handler.
\<close>

fun accessed :: "nat \<Rightarrow> event \<Rightarrow> bool" where
  "accessed i (EvGet j key found) = (j = i)"
| "accessed i (EvSet j key entry) = (j = i)"
| "accessed i (EvWait j key) = (j = i)"
| "accessed i (EvServe j key rawBody calls) = (j = i)"
| "accessed i (EvSweep now) = False"

fun wrote :: "nat \<Rightarrow> event \<Rightarrow> (string \<times> CachedEntry) list" where
  "wrote i (EvSet j key entry) = (if j = i then [(key, entry)] else [])"
| "wrote i ev = []"

fun served :: "nat \<Rightarrow> event \<Rightarrow> (string \<times> bytes \<times> writer_call list) list" where
  "served i (EvServe j key rawBody calls) = (if j = i then [(key, rawBody, calls)] else [])"
| "served i ev = []"

definition accesses_by :: "nat \<Rightarrow> event list \<Rightarrow> event list" where
  "accesses_by i tr = filter (accessed i) tr"

definition writes_by :: "nat \<Rightarrow> event list \<Rightarrow> (string \<times> CachedEntry) list" where
  "writes_by i tr = concat (map (wrote i) tr)"

definition serves_by :: "nat \<Rightarrow> event list \<Rightarrow> (string \<times> bytes \<times> writer_call list) list" where
  "serves_by i tr = concat (map (served i) tr)"

text \<open>
  The contents of the map after the \<^verbatim>\<open>Set\<close> calls and the sweeps of a trace, played
  from the empty map; every other call leaves the map alone.
\<close>

fun apply_event :: "int64 \<Rightarrow> (string \<times> CachedEntry) list \<Rightarrow> event \<Rightarrow> (string \<times> CachedEntry) list" where
  "apply_event t d (EvSet j key entry) = AList.update key entry d"
| "apply_event t d (EvSweep now) = fst (sweep_range now t d)"
| "apply_event t d ev = d"

definition store_after :: "int64 \<Rightarrow> event list \<Rightarrow> (string \<times> CachedEntry) list" where
  "store_after t tr = foldl (apply_event t) [] tr"

section \<open>Invariant of the gateway\<close>

text \<open>
  A stored entry is either PROCESSING with no result yet, or COMPLETE with the hash of
  the body and the recorded answer of some call of the handler for its key.
\<close>

definition entry_ok :: "(bytes \<Rightarrow> string) \<Rightarrow> event list \<Rightarrow> string \<Rightarrow> CachedEntry \<Rightarrow> bool" where
  "entry_ok hashBody tr key entry \<longleftrightarrow>
     (State entry = StateProcessing \<and> StatusCode entry = 0 \<and> ResponseBody entry = []) \<or>
     (State entry = StateComplete \<and>
      (\<exists>j rawBody calls. EvServe j key rawBody calls \<in> set tr \<and>
         BodyHash entry = hashBody rawBody \<and>
         StatusCode entry = statusCode (record_calls calls) \<and>
         ResponseBody entry = body (record_calls calls)))"

text \<open>
  What the trace holds for a goroutine, and what the goroutine holds in its local
  variables, at each of its points.
\<close>

definition local_inv :: "(bytes \<Rightarrow> string) \<Rightarrow> nat \<Rightarrow> thread \<Rightarrow> event list \<Rightarrow> bool" where
  "local_inv hashBody i t tr \<longleftrightarrow>
     (case at t of
        Start \<Rightarrow> accesses_by i tr = []
      | Waiting existing bodyHash \<Rightarrow>
          writes_by i tr = [] \<and> serves_by i tr = [] \<and> IdempotencyKey (req t) \<noteq> [] \<and>
          EvGet i (IdempotencyKey (req t)) (Some existing) \<in> set (accesses_by i tr) \<and>
          State existing = StateProcessing \<and> StatusCode existing = 0 \<and>
          ResponseBody existing = [] \<and>
          (\<exists>rawBody. Body (req t) = Some rawBody \<and> bodyHash = hashBody rawBody)
      | FirstSight rawBody bodyHash \<Rightarrow>
          writes_by i tr = [] \<and> serves_by i tr = [] \<and> IdempotencyKey (req t) \<noteq> [] \<and>
          Body (req t) = Some rawBody \<and> bodyHash = hashBody rawBody
      | Serving rawBody bodyHash \<Rightarrow>
          (\<exists>c. writes_by i tr = [(IdempotencyKey (req t),
              \<lparr>State = StateProcessing, BodyHash = bodyHash, StatusCode = 0,
                 ResponseBody = [], CreatedAt = c\<rparr>)]) \<and>
          serves_by i tr = [] \<and> IdempotencyKey (req t) \<noteq> [] \<and>
          Body (req t) = Some rawBody \<and> bodyHash = hashBody rawBody
      | Served bodyHash code recorded \<Rightarrow>
          (\<exists>c. writes_by i tr = [(IdempotencyKey (req t),
              \<lparr>State = StateProcessing, BodyHash = bodyHash, StatusCode = 0,
                 ResponseBody = [], CreatedAt = c\<rparr>)]) \<and>
          (\<exists>rawBody calls. serves_by i tr = [(IdempotencyKey (req t), rawBody, calls)] \<and>
             Body (req t) = Some rawBody \<and> bodyHash = hashBody rawBody \<and>
             code = statusCode (record_calls calls) \<and> recorded = body (record_calls calls)) \<and>
          IdempotencyKey (req t) \<noteq> []
      | Done result \<Rightarrow>
          (case result of
             InvalidKey \<Rightarrow> IdempotencyKey (req t) = [] \<and> accesses_by i tr = []
           | ReadError \<Rightarrow> IdempotencyKey (req t) \<noteq> [] \<and> accesses_by i tr = []
           | Conflict \<Rightarrow>
               IdempotencyKey (req t) \<noteq> [] \<and> writes_by i tr = [] \<and> serves_by i tr = []
           | Replayed code recorded \<Rightarrow>
               IdempotencyKey (req t) \<noteq> [] \<and> writes_by i tr = [] \<and> serves_by i tr = []
           | Executed code recorded \<Rightarrow>
               IdempotencyKey (req t) \<noteq> [] \<and>
               (\<exists>rawBody calls c1 c2.
                  writes_by i tr =
                    [(IdempotencyKey (req t),
                      \<lparr>State = StateProcessing, BodyHash = hashBody rawBody, StatusCode = 0,
                         ResponseBody = [], CreatedAt = c1\<rparr>),
                     (IdempotencyKey (req t),
                      \<lparr>State = StateComplete, BodyHash = hashBody rawBody, StatusCode = code,
                         ResponseBody = recorded, CreatedAt = c2\<rparr>)] \<and>
                  serves_by i tr = [(IdempotencyKey (req t), rawBody, calls)] \<and>
                  Body (req t) = Some rawBody \<and>
                  code = statusCode (record_calls calls) \<and>
                  recorded = body (record_calls calls))))"

text \<open>
  The invariant: the map is what the trace's \<^verbatim>\<open>Set\<close> calls and sweeps make of the empty
  map, every call in the trace belongs to a goroutine that exists, every entry that a
  \<^verbatim>\<open>Get\<close> returned was stored under its key by a \<^verbatim>\<open>Set\<close>, every goroutine satisfies
  \<open>local_inv\<close> and every stored entry \<open>entry_ok\<close>.
\<close>

definition gateway_inv :: "(bytes \<Rightarrow> string) \<Rightarrow> int64 \<Rightarrow> 'h gateway \<Rightarrow> bool" where
  "gateway_inv hashBody t g \<longleftrightarrow>
     ttl (store g) = t \<and>
     data (store g) = store_after t (trace g) \<and>
     (\<forall>ev \<in> set (trace g). \<forall>j. accessed j ev \<longrightarrow> j < length (threads g)) \<and>
     (\<forall>j key entry. EvGet j key (Some entry) \<in> set (trace g) \<longrightarrow>
        (\<exists>j'. EvSet j' key entry \<in> set (trace g))) \<and>
     (\<forall>i < length (threads g). local_inv hashBody i (threads g ! i) (trace g)) \<and>
     (\<forall>(key, entry) \<in> set (data (store g)). entry_ok hashBody (trace g) key entry)"

section \<open>Example values\<close>

text \<open>A PROCESSING entry and a COMPLETE entry for the key \<open>k\<close>, and stores holding them.\<close>

definition entry_inflight :: CachedEntry where
  "entry_inflight = \<lparr>State = StateProcessing, BodyHash = ''h'', StatusCode = 0,
     ResponseBody = [], CreatedAt = 100\<rparr>"

definition entry_completed :: CachedEntry where
  "entry_completed = \<lparr>State = StateComplete, BodyHash = ''h'', StatusCode = 201,
     ResponseBody = [1, 2], CreatedAt = 100\<rparr>"

definition store_inflight :: MemoryStore where
  "store_inflight = \<lparr>data = [(''k'', entry_inflight)], ttl = 24 * Hour\<rparr>"

definition store_completed :: MemoryStore where
  "store_completed = \<lparr>data = [(''k'', entry_completed)], ttl = 24 * Hour\<rparr>"

text \<open>
  A downstream handler for the examples: it counts its calls and answers 201 with the
  count before the call followed by the request body, so that two calls never give the
  same answer. \<open>example_hash\<close> stands for the digest in the examples.
\<close>

definition charge :: "nat \<Rightarrow> string \<Rightarrow> bytes \<Rightarrow> writer_call list \<times> nat" where
  "charge n key rawBody = ([WriteHeader 201, Write (of_nat n # rawBody)], Suc n)"

definition example_hash :: "bytes \<Rightarrow> string" where
  "example_hash rawBody = map (\<lambda>w. if w = 1 then CHR ''a'' else CHR ''b'') rawBody"

definition request_nokey :: request where
  "request_nokey = \<lparr>IdempotencyKey = [], Body = Some [1]\<rparr>"

definition request_k1 :: "bytes \<Rightarrow> request" where
  "request_k1 rawBody = \<lparr>IdempotencyKey = ''k1'', Body = Some rawBody\<rparr>"

text \<open>
  A first request for \<open>k1\<close> runs to its end; then two more arrive for the same key, one
  with the same body and one with another body.
\<close>

definition first_then_retries :: "action list" where
  "first_then_retries = [Arrive (request_k1 [1]), Run 0, Run 0, Run 0, Run 0,
     Arrive (request_k1 [1]), Arrive (request_k1 [2])]"

text \<open>
  A first request for \<open>k1\<close> has marked the key PROCESSING when a second request for the
  key arrives, reads the entry and goes to wait.
\<close>

definition duplicate_in_flight :: "bytes \<Rightarrow> action list" where
  "duplicate_in_flight rawBody = [Arrive (request_k1 [1]), Run 0, Run 0,
     Arrive (request_k1 rawBody), Run 1]"

text \<open>
  Two requests with the same key and body arrive together and both call \<^verbatim>\<open>Get\<close> before
  either calls \<^verbatim>\<open>Set\<close>.
\<close>

definition race_schedule :: "action list" where
  "race_schedule = [Arrive (request_k1 [1]), Arrive (request_k1 [1]), Run 0, Run 1,
     Run 0, Run 0, Run 0, Run 1, Run 1, Run 1]"

section \<open>The store: basic facts\<close>

lemma sweep_range_kept:
  "fst (sweep_range now t xs) = filter (\<lambda>x. \<not> expired now t (snd x)) xs"
  by (induction xs) (auto split: prod.splits)

lemma sweep_range_evicted:
  "snd (sweep_range now t xs) = length (filter (\<lambda>x. expired now t (snd x)) xs)"
  by (induction xs) (auto split: prod.splits)

lemma distinct_keys_filter:
  "distinct (map fst xs) \<Longrightarrow> distinct (map fst (filter P xs))"
  by (induction xs) auto


text \<open>
  \<open>float64 x\<close> is a nearest float64: no number with a 53-bit significand is nearer to
  \<open>x\<close>. So rounding never crosses a float64, and leaves a float64 as it is.
\<close>

lemma round_even_nearest: "\<bar>of_int (round_even x) - x\<bar> \<le> \<bar>of_int z - x\<bar>"
proof -
  define n where "n = \<lfloor>x\<rfloor>"
  define r where "r = x - of_int n"
  have r: "0 \<le> r" "r < 1" unfolding r_def n_def by linarith+
  have x: "x = of_int n + r" by (simp add: r_def)
  have re: "round_even x = (if r < 1 / 2 then n else if 1 / 2 < r then n + 1
      else if even n then n else n + 1)"
    by (simp add: round_even_def n_def r_def)
  have z: "(of_int z :: rat) \<le> of_int n \<or> (of_int n :: rat) + 1 \<le> of_int z"
  proof (cases "z \<le> n")
    case True
    then show ?thesis by simp
  next
    case False
    then have "n + 1 \<le> z" by simp
    then have "(of_int (n + 1) :: rat) \<le> of_int z" by (simp only: of_int_le_iff)
    then show ?thesis by simp
  qed
  consider "round_even x = n" "r \<le> 1 / 2" | "round_even x = n + 1" "1 / 2 \<le> r"
    unfolding re by (cases "r < 1 / 2"; cases "1 / 2 < r"; cases "even n") simp_all
  then show ?thesis
  proof cases
    case 1
    have "\<bar>of_int n - x\<bar> \<le> \<bar>of_int z - x\<bar>" using 1(2) r z unfolding x by linarith
    with 1(1) show ?thesis by simp
  next
    case 2
    have "\<bar>(of_int n + 1) - x\<bar> \<le> \<bar>of_int z - x\<bar>" using 2(2) r z unfolding x by linarith
    with 2(1) show ?thesis by simp
  qed
qed

lemma exponent_from_bounds:
  "\<bar>x\<bar> < 2 powi (e + 1) \<Longrightarrow>
   e - int n \<le> exponent_from n e x \<and> \<bar>x\<bar> < 2 powi (exponent_from n e x + 1) \<and>
   (exponent_from n e x = e - int n \<or> 2 powi (exponent_from n e x) \<le> \<bar>x\<bar>)"
proof (induction n arbitrary: e)
  case 0
  then show ?case by simp
next
  case (Suc n)
  show ?case
  proof (cases "2 powi e \<le> \<bar>x\<bar>")
    case True
    with Suc.prems show ?thesis by simp
  next
    case False
    then have "\<bar>x\<bar> < 2 powi ((e - 1) + 1)" by simp
    from Suc.IH [OF this] False show ?thesis by auto
  qed
qed

lemma exponent_bounds:
  assumes "\<bar>x\<bar> < 2 powi 1024"
  shows "- 1022 \<le> exponent x" and "\<bar>x\<bar> < 2 powi (exponent x + 1)"
    and "exponent x = - 1022 \<or> 2 powi (exponent x) \<le> \<bar>x\<bar>"
  using exponent_from_bounds [of x 1023 2045] assms
  by (simp_all add: exponent_def)


lemma float64_nearest:
  assumes small: "\<bar>x\<bar> < 2 powi 1024" and m: "\<bar>m\<bar> < 2 ^ 53" and k: "- 1074 \<le> k"
  shows "\<bar>float64 x - x\<bar> \<le> \<bar>of_int m * 2 powi k - x\<bar>"
proof -
  define e where "e = exponent x"
  define u :: rat where "u = 2 powi (e - 52)"
  define n where "n = round_even (x / u)"
  note b = exponent_bounds [OF small, folded e_def]
  have u: "0 < u" by (simp add: u_def)
  have fl: "float64 x = of_int n * u" by (simp add: float64_def n_def u_def e_def)
  have near: "\<bar>of_int n * u - x\<bar> \<le> \<bar>of_int z * u - x\<bar>" for z :: int
  proof -
    have "\<bar>of_int n * u - x\<bar> = u * \<bar>of_int n - x / u\<bar>"
      using u by (simp add: abs_mult_pos' field_simps flip: abs_mult)
    also have "\<dots> \<le> u * \<bar>of_int z - x / u\<bar>"
      using u round_even_nearest [of "x / u" z] by (simp add: n_def)
    also have "\<dots> = \<bar>of_int z * u - x\<bar>"
      using u by (simp add: abs_mult_pos' field_simps flip: abs_mult)
    finally show ?thesis .
  qed
  show ?thesis
  proof (cases "e - 52 \<le> k")
    case True
    define z where "z = m * 2 ^ nat (k - (e - 52))"
    have "(2::rat) powi k = 2 powi (k - (e - 52)) * 2 powi (e - 52)"
      by (simp flip: power_int_add)
    also have "(2::rat) powi (k - (e - 52)) = 2 ^ nat (k - (e - 52))"
      using True by (simp add: power_int_nonneg_exp)
    finally have "of_int z * u = of_int m * 2 powi k"
      by (simp add: z_def u_def)
    with near [of z] fl show ?thesis by simp
  next
    case False
    with k have "e \<noteq> - 1022" by simp
    with b(3) have normal: "2 powi e \<le> \<bar>x\<bar>" by simp
    have "\<bar>of_int m * (2::rat) powi k\<bar> = of_int \<bar>m\<bar> * 2 powi k"
      by (simp add: abs_mult)
    also have "\<dots> \<le> 2 ^ 53 * 2 powi k"
    proof -
      have "(of_int \<bar>m\<bar> :: rat) \<le> of_int (2 ^ 53)" using m by (intro of_int_le_iff [THEN iffD2]) simp
      then show ?thesis by (simp add: mult_right_mono)
    qed
    also have "\<dots> = 2 powi (53 + k)"
      by (simp add: power_int_add)
    also have "\<dots> \<le> 2 powi e"
      using False by (intro power_int_increasing) auto
    finally have y: "\<bar>of_int m * (2::rat) powi k\<bar> \<le> 2 powi e" .
    have pe: "(2::rat) ^ 52 * u = 2 powi e"
      unfolding u_def by (simp add: power_int_diff)
    show ?thesis
    proof (cases "0 \<le> x")
      case True
      from near [of "2 ^ 52"] pe have "\<bar>of_int n * u - x\<bar> \<le> \<bar>2 powi e - x\<bar>" by simp
      with True normal y fl show ?thesis by (simp add: abs_if split: if_splits)
    next
      case False
      from near [of "- (2 ^ 52)"] pe have "\<bar>of_int n * u - x\<bar> \<le> \<bar>- (2 powi e) - x\<bar>" by simp
      with False normal y fl show ?thesis by (simp add: abs_if split: if_splits)
    qed
  qed
qed

lemma float64_le:
  assumes "\<bar>x\<bar> < 2 powi 1024" and "x \<le> of_int m * 2 powi k" and "\<bar>m\<bar> < 2 ^ 53" and "- 1074 \<le> k"
  shows "float64 x \<le> of_int m * 2 powi k"
  using float64_nearest [OF assms(1,3,4)] assms(2) by (simp add: abs_if split: if_splits)

lemma float64_ge:
  assumes "\<bar>x\<bar> < 2 powi 1024" and "of_int m * 2 powi k \<le> x" and "\<bar>m\<bar> < 2 ^ 53" and "- 1074 \<le> k"
  shows "of_int m * 2 powi k \<le> float64 x"
  using float64_nearest [OF assms(1,3,4)] assms(2) by (simp add: abs_if split: if_splits)

lemma float64_of_int:
  assumes "\<bar>m\<bar> < 2 ^ 53"
  shows "float64 (of_int m) = of_int m"
proof -
  have "(of_int \<bar>m\<bar> :: rat) < of_int (2 ^ 53)" using assms by (intro of_int_less_iff [THEN iffD2])
  also have "(of_int (2 ^ 53) :: rat) \<le> 2 powi 1024" by simp
  finally have "\<bar>of_int m :: rat\<bar> < 2 powi 1024" by simp
  from float64_nearest [OF this assms, of 0] show ?thesis by simp
qed


text \<open>
  What \<^verbatim>\<open>Seconds\<close> gives: not less than the whole seconds of a duration that is not
  negative, exactly the whole seconds below \<open>2 ^ 23\<close> seconds (some 97 days) and for
  every whole number of seconds. Beyond that the sum can round up to the next second.
\<close>

lemma small_1024: "\<bar>x\<bar> \<le> 2 ^ 64 \<Longrightarrow> \<bar>x :: rat\<bar> < 2 powi 1024"
proof -
  assume "\<bar>x\<bar> \<le> 2 ^ 64"
  also have "(2::rat) ^ 64 < 2 powi 1024" by simp
  finally show ?thesis .
qed

lemma rat_of_int_bound: "\<bar>m\<bar> \<le> n \<Longrightarrow> \<bar>of_int m :: rat\<bar> \<le> of_int n"
  by (metis of_int_abs of_int_le_iff)

lemma Duration_Seconds_nonneg:
  assumes "0 \<le> d" and "d < 2 ^ 63"
  shows "of_int (d div Second) \<le> Duration_Seconds d"
    and "d div Second < 2 ^ 23 \<Longrightarrow> Duration_Seconds d < of_int (d div Second) + 1"
    and "d mod Second = 0 \<Longrightarrow> Duration_Seconds d = of_int (d div Second)"
proof -
  define sec where "sec = d div Second"
  define nsec where "nsec = d - sec * Second"
  define q where "q = float64 (of_int nsec / 1000000000)"
  have nm: "nsec = d mod Second"
    unfolding nsec_def sec_def by (simp add: minus_div_mult_eq_mod)
  have nsec: "0 \<le> nsec" "nsec < 1000000000"
    unfolding nm Second_def by simp_all
  have "d < 9223372036854775808" using assms by simp
  then have "d div 1000000000 < 9007199254740992" by linarith
  then have sec: "0 \<le> sec" "sec < 2 ^ 53"
    using assms unfolding sec_def Second_def by simp_all
  have A: "float64 (of_int sec) = of_int sec" using sec by (intro float64_of_int) simp
  have B: "float64 (of_int nsec) = of_int nsec" using nsec by (intro float64_of_int) simp
  have "Duration_Seconds d =
      float64 (float64 (of_int sec) + float64 (float64 (of_int nsec) / 1000000000))"
    using assms(1) by (simp add: Duration_Seconds_def Let_def nsec_def sec_def)
  then have ds: "Duration_Seconds d = float64 (of_int sec + q)"
    unfolding A B q_def .
  have frac: "0 \<le> (of_int nsec :: rat) / 1000000000" "(of_int nsec :: rat) / 1000000000 \<le> 999999999 / 1000000000"
  proof -
    have "(0::rat) \<le> of_int nsec" using nsec by simp
    then show "0 \<le> (of_int nsec :: rat) / 1000000000" by simp
    have "(of_int nsec :: rat) \<le> of_int 999999999" using nsec by (simp only: of_int_le_iff)
    then show "(of_int nsec :: rat) / 1000000000 \<le> 999999999 / 1000000000" by simp
  qed
  have fsmall: "\<bar>(of_int nsec :: rat) / 1000000000\<bar> < 2 powi 1024"
    using frac by (intro small_1024) (simp add: abs_if)
  have q0: "0 \<le> q"
    using float64_ge [OF fsmall, of 0 0] frac(1) by (simp add: q_def)
  have q1: "q \<le> 1 - 1 / 2 ^ 30"
  proof -
    have "float64 (of_int nsec / 1000000000) \<le> of_int (2 ^ 30 - 1) * 2 powi (- 30)"
      using frac(2) by (intro float64_le fsmall) (simp_all add: power_int_minus)
    then show ?thesis by (simp add: q_def power_int_minus field_simps)
  qed
  have s53: "(of_int sec :: rat) \<le> 2 ^ 53"
  proof -
    have "(of_int sec :: rat) \<le> of_int (2 ^ 53)" using sec by (simp only: of_int_le_iff)
    then show ?thesis by simp
  qed
  have s0: "(0 :: rat) \<le> of_int sec" using sec by simp
  have vsmall: "\<bar>of_int sec + q\<bar> < 2 powi 1024"
    using q0 q1 s0 s53 by (intro small_1024) (simp add: abs_if)
  have "of_int sec * 2 powi 0 \<le> float64 (of_int sec + q)"
    using q0 sec by (intro float64_ge vsmall) simp_all
  then show "of_int (d div Second) \<le> Duration_Seconds d"
    by (simp add: ds sec_def)
  show "Duration_Seconds d < of_int (d div Second) + 1" if "d div Second < 2 ^ 23"
  proof -
    from that have s23: "sec < 2 ^ 23" by (simp add: sec_def)
    have "float64 (of_int sec + q) \<le> of_int ((sec + 1) * 2 ^ 30 - 1) * 2 powi (- 30)"
    proof (intro float64_le vsmall)
      show "of_int sec + q \<le> of_int ((sec + 1) * 2 ^ 30 - 1) * 2 powi (- 30)"
        using q1 by (simp add: power_int_minus field_simps)
      show "\<bar>(sec + 1) * 2 ^ 30 - 1\<bar> < 2 ^ 53" using sec s23 by simp
    qed simp
    also have "\<dots> < of_int sec + 1" by (simp add: power_int_minus field_simps)
    finally show ?thesis by (simp add: ds sec_def)
  qed
  show "Duration_Seconds d = of_int (d div Second)" if "d mod Second = 0"
  proof -
    from that nm have "nsec = 0" by simp
    then have "q = 0" using float64_of_int [of 0] by (simp add: q_def)
    with A show ?thesis by (simp add: ds sec_def)
  qed
qed

lemma Duration_Seconds_neg:
  assumes "d < 0" and "- (2 ^ 63) \<le> d"
  shows "of_int (- ((- d) div Second)) - 1 \<le> Duration_Seconds d"
    and "Duration_Seconds d \<le> of_int (- ((- d) div Second))"
    and "(- d) div Second < 2 ^ 23 \<Longrightarrow> of_int (- ((- d) div Second)) - 1 < Duration_Seconds d"
    and "(- d) mod Second = 0 \<Longrightarrow> Duration_Seconds d = of_int (- ((- d) div Second))"
proof -
  define sec where "sec = - ((- d) div Second)"
  define nsec where "nsec = d - sec * Second"
  define q where "q = float64 (of_int nsec / 1000000000)"
  have "(- d) mod Second = (- d) - ((- d) div Second) * Second"
    by (simp add: minus_div_mult_eq_mod)
  then have nm: "nsec = - ((- d) mod Second)"
    unfolding nsec_def sec_def by simp
  have "0 \<le> (- d) mod Second" "(- d) mod Second < 1000000000"
    unfolding Second_def by simp_all
  then have nsec: "nsec \<le> 0" "- 1000000000 < nsec"
    unfolding nm by simp_all
  have "- d \<le> 9223372036854775808" using assms by simp
  then have "(- d) div 1000000000 < 4503599627370496" by linarith
  moreover have "0 \<le> (- d) div 1000000000" using assms by simp
  ultimately have sec: "sec \<le> 0" "- (2 ^ 52) < sec"
    unfolding sec_def Second_def by simp_all
  have A: "float64 (of_int sec) = of_int sec" using sec by (intro float64_of_int) simp
  have B: "float64 (of_int nsec) = of_int nsec" using nsec by (intro float64_of_int) simp
  have "Duration_Seconds d =
      float64 (float64 (of_int sec) + float64 (float64 (of_int nsec) / 1000000000))"
    using assms(1) by (simp add: Duration_Seconds_def Let_def nsec_def sec_def)
  then have ds: "Duration_Seconds d = float64 (of_int sec + q)"
    unfolding A B q_def .
  have frac: "(of_int nsec :: rat) / 1000000000 \<le> 0" "- (999999999 / 1000000000) \<le> (of_int nsec :: rat) / 1000000000"
  proof -
    have "(of_int nsec :: rat) \<le> 0" using nsec by simp
    then show "(of_int nsec :: rat) / 1000000000 \<le> 0" by (simp add: divide_le_0_iff)
    have "(of_int (- 999999999) :: rat) \<le> of_int nsec" using nsec by (simp only: of_int_le_iff)
    then show "- (999999999 / 1000000000) \<le> (of_int nsec :: rat) / 1000000000" by simp
  qed
  have fsmall: "\<bar>(of_int nsec :: rat) / 1000000000\<bar> < 2 powi 1024"
    using frac by (intro small_1024) (simp add: abs_if)
  have q0: "q \<le> 0"
    using float64_le [OF fsmall, of 0 0] frac(1) by (simp add: q_def)
  have q1: "- (1 - 1 / 2 ^ 30) \<le> q"
  proof -
    have "of_int (- (2 ^ 30 - 1)) * 2 powi (- 30) \<le> float64 (of_int nsec / 1000000000)"
      using frac(2) by (intro float64_ge fsmall) (simp_all add: power_int_minus)
    then show ?thesis by (simp add: q_def power_int_minus field_simps)
  qed
  have s53: "- (2 ^ 53) \<le> (of_int sec :: rat)"
  proof -
    from sec have "- (2 ^ 53) \<le> sec" by simp
    then have "(of_int (- (2 ^ 53)) :: rat) \<le> of_int sec" by (simp only: of_int_le_iff)
    then show ?thesis by simp
  qed
  have s0: "(of_int sec :: rat) \<le> 0" using sec by simp
  have vsmall: "\<bar>of_int sec + q\<bar> < 2 powi 1024"
    using q0 q1 s0 s53 by (intro small_1024) (simp add: abs_if)
  have "of_int (sec - 1) * 2 powi 0 \<le> float64 (of_int sec + q)"
    using q1 sec by (intro float64_ge vsmall) simp_all
  then show "of_int (- ((- d) div Second)) - 1 \<le> Duration_Seconds d"
    by (simp add: ds sec_def)
  have "float64 (of_int sec + q) \<le> of_int sec * 2 powi 0"
    using q0 sec by (intro float64_le vsmall) simp_all
  then show "Duration_Seconds d \<le> of_int (- ((- d) div Second))"
    by (simp add: ds sec_def)
  show "of_int (- ((- d) div Second)) - 1 < Duration_Seconds d" if "(- d) div Second < 2 ^ 23"
  proof -
    from that have s23: "- (2 ^ 23) < sec" by (simp add: sec_def)
    have "of_int sec - 1 < of_int ((sec - 1) * 2 ^ 30 + 1) * (2::rat) powi (- 30)"
      by (simp add: power_int_minus field_simps)
    also have "\<dots> \<le> float64 (of_int sec + q)"
    proof (intro float64_ge vsmall)
      show "of_int ((sec - 1) * 2 ^ 30 + 1) * 2 powi (- 30) \<le> of_int sec + q"
        using q1 by (simp add: power_int_minus field_simps)
      show "\<bar>(sec - 1) * 2 ^ 30 + 1\<bar> < 2 ^ 53" using sec s23 by simp
    qed simp
    finally show ?thesis by (simp add: ds sec_def)
  qed
  show "Duration_Seconds d = of_int (- ((- d) div Second))" if "(- d) mod Second = 0"
  proof -
    from that nm have "nsec = 0" by simp
    then have "q = 0" using float64_of_int [of 0] by (simp add: q_def)
    with A show ?thesis by (simp add: ds sec_def)
  qed
qed


lemma sint64_range: "- (2 ^ 63) \<le> sint (d :: int64)" "sint (d :: int64) < 2 ^ 63"
  using sint_ge [of d] sint_lt [of d] by simp_all


lemma Seconds_int64_small:
  assumes "\<bar>sint d\<bar> < 2 ^ 23 * Second"
  shows "Seconds_int64 d =
    (if 0 \<le> sint d then sint d div Second else - ((- sint d) div Second))"
proof (cases "0 \<le> sint d")
  case True
  have "sint d < 8388608000000000" using assms True by (simp add: Second_def)
  then have "sint d div 1000000000 < 8388608" by linarith
  then have s: "sint d div Second < 2 ^ 23" by (simp add: Second_def)
  note b = Duration_Seconds_nonneg(1,2) [OF True sint64_range(2)]
  have "(0::rat) \<le> of_int (sint d div Second)"
    using True by (simp add: Second_def pos_imp_zdiv_nonneg_iff)
  with b(1) have "0 \<le> Duration_Seconds (sint d)" by simp
  moreover have "\<lfloor>Duration_Seconds (sint d)\<rfloor> = sint d div Second"
    using b(1) b(2) [OF s] by (intro floor_unique) simp_all
  ultimately show ?thesis using True by (simp add: Seconds_int64_def int64_of_float64_def)
next
  case False
  then have neg: "sint d < 0" by simp
  have "- sint d < 8388608000000000" using assms neg by (simp add: Second_def)
  then have "(- sint d) div 1000000000 < 8388608" by linarith
  then have s: "(- sint d) div Second < 2 ^ 23" by (simp add: Second_def)
  note b = Duration_Seconds_neg(2,3) [OF neg sint64_range(1)]
  define sec where "sec = - ((- sint d) div Second)"
  have sec: "sec \<le> 0" using neg by (simp add: sec_def Second_def pos_imp_zdiv_nonneg_iff)
  have lo: "of_int sec - 1 < Duration_Seconds (sint d)" using b(2) [OF s] by (simp add: sec_def)
  have hi: "Duration_Seconds (sint d) \<le> of_int sec" using b(1) by (simp add: sec_def)
  have "int64_of_float64 (Duration_Seconds (sint d)) = sec"
  proof (cases "0 \<le> Duration_Seconds (sint d)")
    case True
    with hi sec have "(of_int sec :: rat) = 0" "Duration_Seconds (sint d) = 0"
      by (simp_all add: order_antisym)
    then show ?thesis by (simp add: int64_of_float64_def)
  next
    case False
    have "\<lfloor>- Duration_Seconds (sint d)\<rfloor> = - sec"
      using lo hi by (intro floor_unique) simp_all
    with False show ?thesis by (simp add: int64_of_float64_def)
  qed
  with False show ?thesis by (simp add: Seconds_int64_def sec_def)
qed

lemma Seconds_int64_whole:
  assumes "sint d = k * Second"
  shows "Seconds_int64 d = k"
proof (cases "0 \<le> sint d")
  case True
  have "sint d mod Second = 0" "sint d div Second = k"
    using assms by (simp_all add: Second_def)
  with Duration_Seconds_nonneg(3) [OF True sint64_range(2)]
  have "Duration_Seconds (sint d) = of_int k" by simp
  moreover have "0 \<le> k" using True assms by (simp add: Second_def)
  ultimately show ?thesis by (simp add: Seconds_int64_def int64_of_float64_def)
next
  case False
  then have neg: "sint d < 0" by simp
  have "(- sint d) mod Second = 0" "(- sint d) div Second = - k"
    using assms by (simp_all add: Second_def)
  with Duration_Seconds_neg(4) [OF neg sint64_range(1)]
  have "Duration_Seconds (sint d) = of_int k" by simp
  moreover have "k < 0" using neg assms by (simp add: Second_def)
  ultimately show ?thesis by (simp add: Seconds_int64_def int64_of_float64_def)
qed






lemma Seconds_int64_examples:
  "Seconds_int64 1 = 0" "Seconds_int64 (- 1) = 0" "Seconds_int64 (24 * Hour) = 86400"
proof -
  show "Seconds_int64 1 = 0" using Seconds_int64_small [of 1] by (simp add: Second_def)
  show "Seconds_int64 (- 1) = 0" using Seconds_int64_small [of "- 1"] by (simp add: Second_def)
  show "Seconds_int64 (24 * Hour) = 86400"
    by (rule Seconds_int64_whole) (simp add: Hour_def Minute_def Second_def)
qed

lemma ageInSeconds_exact:
  assumes "- (2 ^ 63) \<le> sint now - sint (CreatedAt entry)"
    and "sint now - sint (CreatedAt entry) < 2 ^ 63"
  shows "sint (ageInSeconds now entry) = sint now - sint (CreatedAt entry)"
  unfolding ageInSeconds_def using assms
  by (simp add: sint_word_ariths signed_take_bit_int_eq_self)


lemma WaitForComplete_Some:
  "WaitForComplete obs key = Some r \<Longrightarrow>
   \<exists>before ms later. obs = before @ ms # later \<and> r = Get ms key \<and>
      (r = None \<or> (\<exists>e. r = Some e \<and> State e = StateComplete)) \<and>
      (\<forall>m \<in> set before. \<exists>e. Get m key = Some e \<and> State e \<noteq> StateComplete)"
proof (induction obs)
  case Nil
  then show ?case by simp
next
  case (Cons ms obs)
  show ?case
  proof (cases "WaitForComplete_pass ms key")
    case (Returned x)
    with Cons.prems have r: "r = x" by simp
    from Returned have "x = Get ms key \<and> (x = None \<or> (\<exists>e. x = Some e \<and> State e = StateComplete))"
      by (auto simp: WaitForComplete_pass_def Get_def split: option.splits if_splits)
    with r have "ms # obs = [] @ ms # obs \<and> r = Get ms key \<and>
      (r = None \<or> (\<exists>e. r = Some e \<and> State e = StateComplete)) \<and>
      (\<forall>m \<in> set []. \<exists>e. Get m key = Some e \<and> State e \<noteq> StateComplete)" by auto
    then show ?thesis by blast
  next
    case Parked
    with Cons.prems have "WaitForComplete obs key = Some r" by simp
    from Cons.IH [OF this] obtain before m later where
      b: "obs = before @ m # later" "r = Get m key"
         "r = None \<or> (\<exists>e. r = Some e \<and> State e = StateComplete)"
         "\<forall>m \<in> set before. \<exists>e. Get m key = Some e \<and> State e \<noteq> StateComplete"
      by blast
    from Parked have "\<exists>e. Get ms key = Some e \<and> State e \<noteq> StateComplete"
      by (auto simp: WaitForComplete_pass_def Get_def split: option.splits if_splits)
    with b have "ms # obs = (ms # before) @ m # later \<and> r = Get m key \<and>
      (r = None \<or> (\<exists>e. r = Some e \<and> State e = StateComplete)) \<and>
      (\<forall>m \<in> set (ms # before). \<exists>e. Get m key = Some e \<and> State e \<noteq> StateComplete)" by simp
    then show ?thesis by blast
  qed
qed

lemma WaitForComplete_immediately:
  "Get ms key = None \<or> (\<exists>e. Get ms key = Some e \<and> State e = StateComplete) \<Longrightarrow>
   WaitForComplete (ms # later) key = Some (Get ms key)"
  by (auto simp: WaitForComplete_pass_def Get_def)

lemma WaitForComplete_wakes:
  assumes "\<forall>m \<in> set before. \<exists>e. Get m key = Some e \<and> State e \<noteq> StateComplete"
    and "Get ms key = None \<or> (\<exists>e. Get ms key = Some e \<and> State e = StateComplete)"
  shows "WaitForComplete (before @ ms # later) key = Some (Get ms key)"
  using assms
proof (induction before)
  case Nil
  then have "WaitForComplete (ms # later) key = Some (Get ms key)"
    by (intro WaitForComplete_immediately)
  then show ?case by (simp only: append_Nil)
next
  case (Cons m before)
  from Cons.prems(1) have "WaitForComplete_pass m key = Parked"
    by (auto simp: WaitForComplete_pass_def Get_def)
  with Cons show ?case by simp
qed

lemma WaitForComplete_parked:
  "\<forall>m \<in> set obs. \<exists>e. Get m key = Some e \<and> State e \<noteq> StateComplete \<Longrightarrow>
   WaitForComplete obs key = None"
  by (induction obs) (auto simp: WaitForComplete_pass_def Get_def)

section \<open>The gateway: the invariant holds in every run\<close>

lemma accesses_by_snoc [simp]:
  "accesses_by i (tr @ [ev]) = accesses_by i tr @ (if accessed i ev then [ev] else [])"
  by (simp add: accesses_by_def)

lemma writes_by_snoc [simp]: "writes_by i (tr @ [ev]) = writes_by i tr @ wrote i ev"
  by (simp add: writes_by_def)

lemma serves_by_snoc [simp]: "serves_by i (tr @ [ev]) = serves_by i tr @ served i ev"
  by (simp add: serves_by_def)

lemma store_after_snoc [simp]: "store_after t (tr @ [ev]) = apply_event t (store_after t tr) ev"
  by (simp add: store_after_def)

lemma accesses_by_Nil_writes: "accesses_by i tr = [] \<Longrightarrow> writes_by i tr = []"
proof (induction tr)
  case Nil
  then show ?case by (simp add: writes_by_def)
next
  case (Cons ev tr)
  then show ?case by (cases ev) (auto simp: writes_by_def accesses_by_def split: if_splits)
qed

lemma accesses_by_Nil_serves: "accesses_by i tr = [] \<Longrightarrow> serves_by i tr = []"
proof (induction tr)
  case Nil
  then show ?case by (simp add: serves_by_def)
next
  case (Cons ev tr)
  then show ?case by (cases ev) (auto simp: serves_by_def accesses_by_def split: if_splits)
qed

lemma accesses_by_fresh:
  "\<forall>ev \<in> set tr. \<forall>j. accessed j ev \<longrightarrow> j < n \<Longrightarrow> accesses_by n tr = []"
  by (auto simp: accesses_by_def filter_empty_conv)

lemma entry_ok_snoc: "entry_ok hb tr key entry \<Longrightarrow> entry_ok hb (tr @ [ev]) key entry"
  by (auto simp: entry_ok_def)

lemma set_update_cases:
  "(k, e) \<in> set (AList.update key entry d) \<Longrightarrow> (k, e) = (key, entry) \<or> (k, e) \<in> set d"
  by (induction d) (auto split: if_splits)

lemma set_sweep_range: "(k, e) \<in> set (fst (sweep_range now t d)) \<Longrightarrow> (k, e) \<in> set d"
  by (simp add: sweep_range_kept)

lemma gateway_inv_boot: "gateway_inv hb t (boot t now d)"
  by (simp add: gateway_inv_def boot_def NewMemoryStore_def store_after_def)


lemma accessed_unique: "accessed i ev \<Longrightarrow> accessed j ev \<Longrightarrow> i = j"
  by (cases ev) auto

lemma not_accessed_wrote: "\<not> accessed i ev \<Longrightarrow> wrote i ev = []"
  by (cases ev) auto

lemma not_accessed_served: "\<not> accessed i ev \<Longrightarrow> served i ev = []"
  by (cases ev) auto

lemma projections_frame:
  assumes "\<forall>ev \<in> set evs. \<not> accessed i ev"
  shows "accesses_by i (tr @ evs) = accesses_by i tr"
    and "writes_by i (tr @ evs) = writes_by i tr"
    and "serves_by i (tr @ evs) = serves_by i tr"
  using assms
  by (simp_all add: accesses_by_def writes_by_def serves_by_def not_accessed_wrote
        not_accessed_served filter_empty_conv)

lemma local_inv_frame:
  assumes "\<forall>ev \<in> set evs. \<not> accessed i ev"
  shows "local_inv hb i t (tr @ evs) = local_inv hb i t tr"
  unfolding local_inv_def projections_frame [OF assms] ..

lemma entry_ok_append: "entry_ok hb tr key entry \<Longrightarrow> entry_ok hb (tr @ evs) key entry"
  by (auto simp: entry_ok_def)

lemma gateway_inv_update:
  assumes inv: "gateway_inv hb t g" and j: "j < length (threads g)"
    and tr: "trace g' = trace g @ evs" and evs: "\<forall>ev \<in> set evs. accessed j ev"
    and th: "threads g' = (threads g)[j := th']"
    and loc: "local_inv hb j th' (trace g')"
    and st: "ttl (store g') = t" "data (store g') = store_after t (trace g')"
    and ok: "\<forall>(key, entry) \<in> set (data (store g')). entry_ok hb (trace g') key entry"
    and got: "\<forall>i key entry. EvGet i key (Some entry) \<in> set evs \<longrightarrow>
        (\<exists>j'. EvSet j' key entry \<in> set (trace g))"
  shows "gateway_inv hb t g'"
proof -
  have len: "length (threads g') = length (threads g)" using th by simp
  have gets: "\<forall>i key entry. EvGet i key (Some entry) \<in> set (trace g') \<longrightarrow>
      (\<exists>j'. EvSet j' key entry \<in> set (trace g'))"
  proof (intro allI impI)
    fix i key entry assume "EvGet i key (Some entry) \<in> set (trace g')"
    then have "EvGet i key (Some entry) \<in> set (trace g) \<or> EvGet i key (Some entry) \<in> set evs"
      unfolding tr by simp
    then have "\<exists>j'. EvSet j' key entry \<in> set (trace g)"
      using inv got by (auto simp: gateway_inv_def)
    then show "\<exists>j'. EvSet j' key entry \<in> set (trace g')"
      unfolding tr by auto
  qed
  have bound: "\<forall>ev \<in> set (trace g'). \<forall>i. accessed i ev \<longrightarrow> i < length (threads g')"
  proof (intro ballI allI impI)
    fix ev i assume ev: "ev \<in> set (trace g')" and a: "accessed i ev"
    from ev tr have "ev \<in> set (trace g) \<or> ev \<in> set evs" by auto
    then show "i < length (threads g')"
    proof
      assume "ev \<in> set (trace g)"
      with inv a len show ?thesis by (auto simp: gateway_inv_def)
    next
      assume "ev \<in> set evs"
      with evs have "accessed j ev" by blast
      with a have "i = j" by (rule accessed_unique)
      with j len show ?thesis by simp
    qed
  qed
  have locs: "\<forall>i < length (threads g'). local_inv hb i (threads g' ! i) (trace g')"
  proof (intro allI impI)
    fix i assume i: "i < length (threads g')"
    show "local_inv hb i (threads g' ! i) (trace g')"
    proof (cases "i = j")
      case True
      with th j loc show ?thesis by simp
    next
      case False
      then have "\<forall>ev \<in> set evs. \<not> accessed i ev"
        using evs accessed_unique by blast
      then have "local_inv hb i (threads g ! i) (trace g') = local_inv hb i (threads g ! i) (trace g)"
        unfolding tr by (rule local_inv_frame)
      moreover from inv i len have "local_inv hb i (threads g ! i) (trace g)"
        by (simp add: gateway_inv_def)
      moreover from False th have "threads g' ! i = threads g ! i" by simp
      ultimately show ?thesis by simp
    qed
  qed
  from st bound gets locs ok show ?thesis
    unfolding gateway_inv_def by blast
qed

lemma goto_simps [simp]:
  "threads (goto i p g) = (threads g)[i := (threads g ! i)\<lparr>at := p\<rparr>]"
  "store (goto i p g) = store g" "trace (goto i p g) = trace g"
  "clock (goto i p g) = clock g" "downstream (goto i p g) = downstream g"
  "printed (goto i p g) = printed g"
  by (simp_all add: goto_def)

lemma emit_simps [simp]:
  "threads (emit ev g) = threads g" "store (emit ev g) = store g"
  "trace (emit ev g) = trace g @ [ev]" "clock (emit ev g) = clock g"
  "downstream (emit ev g) = downstream g" "printed (emit ev g) = printed g"
  by (simp_all add: emit_def)

lemma gateway_inv_entries:
  "gateway_inv hb t g \<Longrightarrow> Get (store g) key = Some entry \<Longrightarrow> entry_ok hb (trace g) key entry"
  by (auto simp: gateway_inv_def Get_def dest!: map_of_SomeD)

lemma serves_by_mem:
  "(key, rawBody, calls) \<in> set (serves_by j tr) \<Longrightarrow> EvServe j key rawBody calls \<in> set tr"
proof (induction tr)
  case Nil
  then show ?case by (simp add: serves_by_def)
next
  case (Cons ev tr)
  then show ?case by (cases ev) (auto simp: serves_by_def split: if_splits)
qed

lemma entries_ok_Set:
  assumes "\<forall>(key, entry) \<in> set (data ms). entry_ok hb tr key entry"
    and "entry_ok hb (tr @ evs) k e"
  shows "\<forall>(key, entry) \<in> set (data (Set ms k e)). entry_ok hb (tr @ evs) key entry"
proof (clarify)
  fix key entry assume "(key, entry) \<in> set (data (Set ms k e))"
  then have "(key, entry) = (k, e) \<or> (key, entry) \<in> set (data ms)"
    by (auto simp: Set_def dest: set_update_cases)
  then show "entry_ok hb (tr @ evs) key entry"
    using assms by (auto intro: entry_ok_append)
qed

lemma store_after_mem:
  "(key, entry) \<in> set (store_after t tr) \<Longrightarrow> \<exists>j. EvSet j key entry \<in> set tr"
proof (induction tr arbitrary: key entry rule: rev_induct)
  case Nil
  then show ?case by (simp add: store_after_def)
next
  case (snoc ev tr)
  show ?case
  proof (cases ev)
    case (EvSet j k e)
    with snoc.prems have "(key, entry) = (k, e) \<or> (key, entry) \<in> set (store_after t tr)"
      by (auto dest: set_update_cases)
    with EvSet snoc.IH show ?thesis by auto
  next
    case (EvSweep now)
    with snoc.prems have "(key, entry) \<in> set (store_after t tr)"
      by (auto dest: set_sweep_range)
    with snoc.IH show ?thesis by auto
  qed (use snoc in auto)
qed

lemma gateway_inv_Idempotency_step:
  assumes inv: "gateway_inv hb t g" and j: "j < length (threads g)"
  shows "gateway_inv hb t (Idempotency_step hb nxt j g)"
proof -
  let ?th = "threads g ! j"
  let ?k = "IdempotencyKey (req ?th)"
  from inv j have loc: "local_inv hb j ?th (trace g)" by (simp add: gateway_inv_def)
  from inv have st: "ttl (store g) = t" "data (store g) = store_after t (trace g)"
    and ok: "\<forall>(key, entry) \<in> set (data (store g)). entry_ok hb (trace g) key entry"
    by (simp_all add: gateway_inv_def)
  from ok have ok': "\<And>key entry evs. (key, entry) \<in> set (data (store g)) \<Longrightarrow>
      entry_ok hb (trace g @ evs) key entry"
    by (auto intro: entry_ok_append)
  show ?thesis
  proof (cases "at ?th")
    case Start
    with loc have acc: "accesses_by j (trace g) = []" by (simp add: local_inv_def)
    note W = accesses_by_Nil_writes [OF acc] and S = accesses_by_Nil_serves [OF acc]
    show ?thesis
    proof (cases "?k = []")
      case True
      with Start have eq: "Idempotency_step hb nxt j g = goto j (Done InvalidKey) g"
        by (simp add: Idempotency_step_def Let_def)
      show ?thesis unfolding eq
        by (rule gateway_inv_update [OF inv j, where evs = "[]"
              and th' = "?th\<lparr>at := Done InvalidKey\<rparr>"])
           (use True acc st ok in \<open>simp_all add: local_inv_def\<close>)
    next
      case key: False
      show ?thesis
      proof (cases "Body (req ?th)")
        case None
        with Start key have eq: "Idempotency_step hb nxt j g = goto j (Done ReadError) g"
          by (simp add: Idempotency_step_def Let_def)
        show ?thesis unfolding eq
          by (rule gateway_inv_update [OF inv j, where evs = "[]"
                and th' = "?th\<lparr>at := Done ReadError\<rparr>"])
             (use key acc st ok in \<open>simp_all add: local_inv_def\<close>)
      next
        case (Some rawBody)
        show ?thesis
        proof (cases "Get (store g) ?k")
          case None
          with Start key Some have eq: "Idempotency_step hb nxt j g =
              emit (EvGet j ?k None) (goto j (FirstSight rawBody (hb rawBody)) g)"
            by (simp add: Idempotency_step_def Let_def)
          show ?thesis unfolding eq
            by (rule gateway_inv_update [OF inv j, where evs = "[EvGet j ?k None]"
                  and th' = "?th\<lparr>at := FirstSight rawBody (hb rawBody)\<rparr>"])
               (use key Some W S st ok' in \<open>auto simp: local_inv_def\<close>)
        next
          case existing: (Some existing)
          from gateway_inv_entries [OF inv existing]
          have eok: "entry_ok hb (trace g) ?k existing" .
          from existing have "(?k, existing) \<in> set (store_after t (trace g))"
            unfolding st(2) [symmetric] Get_def by (rule map_of_SomeD)
          then have stored: "\<exists>j'. EvSet j' ?k existing \<in> set (trace g)"
            by (rule store_after_mem)
          show ?thesis
          proof (cases "State existing = StateProcessing")
            case True
            with Start key Some existing have eq: "Idempotency_step hb nxt j g =
                emit (EvGet j ?k (Some existing)) (goto j (Waiting existing (hb rawBody)) g)"
              by (simp add: Idempotency_step_def Let_def)
            from True eok have "StatusCode existing = 0 \<and> ResponseBody existing = []"
              by (auto simp: entry_ok_def StateProcessing_def StateComplete_def)
            then show ?thesis unfolding eq
              by - (rule gateway_inv_update [OF inv j,
                    where evs = "[EvGet j ?k (Some existing)]"
                    and th' = "?th\<lparr>at := Waiting existing (hb rawBody)\<rparr>"],
                 use True key Some W S st ok' stored in \<open>auto simp: local_inv_def\<close>)
          next
            case False
            with Start key Some existing have eq: "Idempotency_step hb nxt j g =
                emit (EvGet j ?k (Some existing))
                  (goto j (Done (check_existing existing (hb rawBody))) g)"
              by (simp add: Idempotency_step_def Let_def)
            show ?thesis unfolding eq
              by (rule gateway_inv_update [OF inv j,
                    where evs = "[EvGet j ?k (Some existing)]"
                    and th' = "?th\<lparr>at := Done (check_existing existing (hb rawBody))\<rparr>"])
                 (use key Some W S st ok' stored in
                   \<open>auto simp: local_inv_def check_existing_def replayResponse_def\<close>)
          qed
        qed
      qed
    qed
  next
    case (Waiting existing bodyHash)
    with loc have W: "writes_by j (trace g) = []" and S: "serves_by j (trace g) = []"
      and rest: "?k \<noteq> []" "State existing = StateProcessing" "StatusCode existing = 0"
        "ResponseBody existing = []"
        "EvGet j ?k (Some existing) \<in> set (accesses_by j (trace g))"
        "\<exists>rawBody. Body (req ?th) = Some rawBody \<and> bodyHash = hb rawBody"
      by (simp_all add: local_inv_def)
    show ?thesis
    proof (cases "WaitForComplete_pass (store g) ?k")
      case Parked
      with Waiting have eq: "Idempotency_step hb nxt j g = emit (EvWait j ?k) g"
        by (simp add: Idempotency_step_def Let_def)
      show ?thesis unfolding eq
        by (rule gateway_inv_update [OF inv j, where evs = "[EvWait j ?k]" and th' = "?th"])
           (use Waiting W S rest st ok' in \<open>auto simp: local_inv_def\<close>)
    next
      case (Returned r)
      show ?thesis
      proof (cases r)
        case None
        with Waiting Returned have eq: "Idempotency_step hb nxt j g =
            emit (EvWait j ?k) (goto j (Done (check_existing existing bodyHash)) g)"
          by (simp add: Idempotency_step_def Let_def)
        show ?thesis unfolding eq
          by (rule gateway_inv_update [OF inv j, where evs = "[EvWait j ?k]"
                and th' = "?th\<lparr>at := Done (check_existing existing bodyHash)\<rparr>"])
             (use W S rest st ok' in
               \<open>auto simp: local_inv_def check_existing_def replayResponse_def\<close>)
      next
        case (Some completed)
        with Waiting Returned have eq: "Idempotency_step hb nxt j g =
            emit (EvWait j ?k) (goto j (Done (replayResponse completed)) g)"
          by (simp add: Idempotency_step_def Let_def)
        show ?thesis unfolding eq
          by (rule gateway_inv_update [OF inv j, where evs = "[EvWait j ?k]"
                and th' = "?th\<lparr>at := Done (replayResponse completed)\<rparr>"])
             (use W S rest st ok' in \<open>auto simp: local_inv_def replayResponse_def\<close>)
      qed
    qed
  next
    case (FirstSight rawBody bodyHash)
    with loc have W: "writes_by j (trace g) = []" and S: "serves_by j (trace g) = []"
      and rest: "?k \<noteq> []" "Body (req ?th) = Some rawBody" "bodyHash = hb rawBody"
      by (simp_all add: local_inv_def)
    let ?e = "\<lparr>State = StateProcessing, BodyHash = bodyHash, StatusCode = 0,
                 ResponseBody = [], CreatedAt = clock g\<rparr>"
    from FirstSight have eq: "Idempotency_step hb nxt j g =
        emit (EvSet j ?k ?e) (goto j (Serving rawBody bodyHash) (g\<lparr>store := Set (store g) ?k ?e\<rparr>))"
      by (simp add: Idempotency_step_def Let_def)
    have "entry_ok hb (trace g @ [EvSet j ?k ?e]) ?k ?e"
      by (simp add: entry_ok_def)
    note new = entries_ok_Set [OF ok this]
    show ?thesis unfolding eq
      by (rule gateway_inv_update [OF inv j, where evs = "[EvSet j ?k ?e]"
            and th' = "?th\<lparr>at := Serving rawBody bodyHash\<rparr>"])
         (use W S rest st new in \<open>simp_all add: local_inv_def Set_def\<close>)
  next
    case (Serving rawBody bodyHash)
    with loc obtain c where W: "writes_by j (trace g) = [(?k,
              \<lparr>State = StateProcessing, BodyHash = bodyHash, StatusCode = 0,
                 ResponseBody = [], CreatedAt = c\<rparr>)]"
      and S: "serves_by j (trace g) = []"
      and rest: "?k \<noteq> []" "Body (req ?th) = Some rawBody" "bodyHash = hb rawBody"
      by (auto simp: local_inv_def)
    obtain calls d' where n: "nxt (downstream g) ?k rawBody = (calls, d')"
      by (cases "nxt (downstream g) ?k rawBody")
    with Serving have eq: "Idempotency_step hb nxt j g =
        emit (EvServe j ?k rawBody calls)
          (goto j (Served bodyHash (statusCode (record_calls calls)) (body (record_calls calls)))
             (g\<lparr>downstream := d'\<rparr>))"
      by (simp add: Idempotency_step_def Let_def)
    show ?thesis unfolding eq
      by (rule gateway_inv_update [OF inv j, where evs = "[EvServe j ?k rawBody calls]"
            and th' = "?th\<lparr>at := Served bodyHash (statusCode (record_calls calls))
                (body (record_calls calls))\<rparr>"])
         (use W S rest st ok' in \<open>auto simp: local_inv_def\<close>)
  next
    case (Served bodyHash code recorded)
    with loc obtain c rawBody calls where W: "writes_by j (trace g) = [(?k,
              \<lparr>State = StateProcessing, BodyHash = bodyHash, StatusCode = 0,
                 ResponseBody = [], CreatedAt = c\<rparr>)]"
      and S: "serves_by j (trace g) = [(?k, rawBody, calls)]"
      and rest: "?k \<noteq> []" "Body (req ?th) = Some rawBody" "bodyHash = hb rawBody"
        "code = statusCode (record_calls calls)" "recorded = body (record_calls calls)"
      by (auto simp: local_inv_def)
    let ?e = "\<lparr>State = StateComplete, BodyHash = bodyHash, StatusCode = code,
                 ResponseBody = recorded, CreatedAt = clock g\<rparr>"
    from Served have eq: "Idempotency_step hb nxt j g =
        emit (EvSet j ?k ?e) (goto j (Done (Executed code recorded)) (g\<lparr>store := Set (store g) ?k ?e\<rparr>))"
      by (simp add: Idempotency_step_def Let_def)
    have "EvServe j ?k rawBody calls \<in> set (trace g)"
      using S serves_by_mem by simp
    then have "entry_ok hb (trace g @ [EvSet j ?k ?e]) ?k ?e"
      using rest by (auto simp: entry_ok_def)
    note new = entries_ok_Set [OF ok this]
    show ?thesis unfolding eq
      by (rule gateway_inv_update [OF inv j, where evs = "[EvSet j ?k ?e]"
            and th' = "?th\<lparr>at := Done (Executed code recorded)\<rparr>"])
         (use W S rest st new in \<open>simp_all add: local_inv_def Set_def\<close>)
  next
    case (Done result)
    then have "Idempotency_step hb nxt j g = g" by (simp add: Idempotency_step_def Let_def)
    with inv show ?thesis by simp
  qed
qed


lemma gateway_inv_step:
  assumes inv: "gateway_inv hb t g"
  shows "gateway_inv hb t (step hb nxt g a)"
proof (cases a)
  case (Arrive r)
  let ?n = "length (threads g)"
  have fresh: "accesses_by ?n (trace g) = []"
    using inv by (intro accesses_by_fresh) (simp add: gateway_inv_def)
  have "local_inv hb i ((threads g @ [\<lparr>req = r, at = Start\<rparr>]) ! i) (trace g)"
    if "i < Suc ?n" for i
  proof (cases "i < ?n")
    case True
    with inv show ?thesis by (simp add: gateway_inv_def nth_append)
  next
    case False
    with that have "i = ?n" by simp
    with fresh show ?thesis by (simp add: local_inv_def)
  qed
  moreover have "\<forall>ev \<in> set (trace g). \<forall>j. accessed j ev \<longrightarrow> j < Suc ?n"
    using inv by (auto simp: gateway_inv_def less_Suc_eq)
  ultimately show ?thesis
    using inv Arrive by (simp add: gateway_inv_def)
next
  case (Run j)
  with inv show ?thesis by (simp add: gateway_inv_Idempotency_step)
next
  case Sweep
  let ?tr = "trace g @ [EvSweep (clock g)]"
  have eq: "step hb nxt g a =
      g\<lparr>store := (store g)\<lparr>data := fst (sweep_range (clock g) (ttl (store g)) (data (store g)))\<rparr>,
        printed := printed g @ snd (sweep (clock g) (store g)), trace := ?tr\<rparr>"
    using Sweep by (simp add: sweep_def split: prod.splits)
  have no: "\<forall>ev \<in> set [EvSweep (clock g)]. \<not> accessed i ev" for i by simp
  have "local_inv hb i (threads g ! i) ?tr" if "i < length (threads g)" for i
    using inv that local_inv_frame [OF no] by (simp add: gateway_inv_def)
  moreover have "\<forall>(key, entry) \<in> set (fst (sweep_range (clock g) (ttl (store g)) (data (store g)))).
      entry_ok hb ?tr key entry"
  proof (clarify)
    fix key entry
    assume "(key, entry) \<in> set (fst (sweep_range (clock g) (ttl (store g)) (data (store g))))"
    then have "(key, entry) \<in> set (data (store g))" by (rule set_sweep_range)
    with inv have "entry_ok hb (trace g) key entry" by (auto simp: gateway_inv_def)
    then show "entry_ok hb ?tr key entry" by (rule entry_ok_append)
  qed
  moreover have "\<forall>ev \<in> set ?tr. \<forall>j. accessed j ev \<longrightarrow> j < length (threads g)"
    using inv by (auto simp: gateway_inv_def)
  ultimately show ?thesis
    unfolding eq using inv by (simp add: gateway_inv_def)
next
  case (Tick now')
  with inv show ?thesis by (simp add: gateway_inv_def)
qed

lemma gateway_inv_run: "gateway_inv hb t (run hb nxt (boot t now d) schedule)"
proof (induction schedule rule: rev_induct)
  case Nil
  show ?case by (simp add: run_def gateway_inv_boot)
next
  case (snoc a schedule)
  then show ?case by (simp add: run_def gateway_inv_step)
qed

section \<open>The store: claims\<close>

text \<open>
  Claim C9. \<^verbatim>\<open>WaitForComplete\<close> returns only when the entry of the key is absent or
  COMPLETE. Over the stores \<open>obs\<close> it observes, at call time and then at each wake-up:
  when it returns, it returns the entry of the first observation where the key is absent
  or COMPLETE, and at every observation before that one the entry was there and not
  COMPLETE; when the entry is absent or COMPLETE at call time it returns at once; it
  reads the entry again at every wake-up, so that after any number of observations of an
  entry that is not COMPLETE it returns at the first one where the key is absent or
  COMPLETE, with what it reads there; and as long as every observation shows the entry
  PROCESSING it has not returned.
\<close>

theorem WaitForComplete_resolved:
  "(WaitForComplete obs key = Some r \<longrightarrow>
     (\<exists>before ms later. obs = before @ ms # later \<and> r = Get ms key \<and>
        (r = None \<or> (\<exists>e. r = Some e \<and> State e = StateComplete)) \<and>
        (\<forall>m \<in> set before. \<exists>e. Get m key = Some e \<and> State e \<noteq> StateComplete))) \<and>
   (Get ms key = None \<or> (\<exists>e. Get ms key = Some e \<and> State e = StateComplete) \<longrightarrow>
      WaitForComplete (ms # later) key = Some (Get ms key)) \<and>
   ((\<forall>m \<in> set before. \<exists>e. Get m key = Some e \<and> State e \<noteq> StateComplete) \<and>
    (Get ms key = None \<or> (\<exists>e. Get ms key = Some e \<and> State e = StateComplete)) \<longrightarrow>
      WaitForComplete (before @ ms # later) key = Some (Get ms key)) \<and>
   ((\<forall>m \<in> set obs. \<exists>e. Get m key = Some e \<and> State e = StateProcessing) \<longrightarrow>
      WaitForComplete obs key = None)"
proof (intro conjI impI)
  assume "WaitForComplete obs key = Some r"
  then show "\<exists>before ms later. obs = before @ ms # later \<and> r = Get ms key \<and>
        (r = None \<or> (\<exists>e. r = Some e \<and> State e = StateComplete)) \<and>
        (\<forall>m \<in> set before. \<exists>e. Get m key = Some e \<and> State e \<noteq> StateComplete)"
    by (rule WaitForComplete_Some)
next
  assume "Get ms key = None \<or> (\<exists>e. Get ms key = Some e \<and> State e = StateComplete)"
  then show "WaitForComplete (ms # later) key = Some (Get ms key)"
    by (rule WaitForComplete_immediately)
next
  assume "(\<forall>m \<in> set before. \<exists>e. Get m key = Some e \<and> State e \<noteq> StateComplete) \<and>
    (Get ms key = None \<or> (\<exists>e. Get ms key = Some e \<and> State e = StateComplete))"
  then show "WaitForComplete (before @ ms # later) key = Some (Get ms key)"
    by (intro WaitForComplete_wakes) simp_all
next
  assume a: "\<forall>m \<in> set obs. \<exists>e. Get m key = Some e \<and> State e = StateProcessing"
  have "\<forall>m \<in> set obs. \<exists>e. Get m key = Some e \<and> State e \<noteq> StateComplete"
  proof
    fix m assume "m \<in> set obs"
    with a obtain e where "Get m key = Some e" "State e = StateProcessing" by blast
    then show "\<exists>e. Get m key = Some e \<and> State e \<noteq> StateComplete"
      by (auto simp: StateProcessing_def StateComplete_def)
  qed
  then show "WaitForComplete obs key = None" by (rule WaitForComplete_parked)
qed

text \<open>
  The theorem at work: a waiter that sees the entry PROCESSING twice is still parked;
  one that sees it COMPLETE at call time returns it; one that sees it PROCESSING twice
  and then COMPLETE returns the COMPLETE entry; and one that sees it PROCESSING and then
  finds the key absent returns nothing.
\<close>

theorem WaitForComplete_resolved_witness:
  "WaitForComplete [store_inflight, store_inflight] ''k'' = None \<and>
   WaitForComplete [store_completed, store_inflight] ''k'' = Some (Some entry_completed) \<and>
   WaitForComplete [store_inflight, store_inflight, store_completed, store_inflight] ''k'' =
     Some (Some entry_completed) \<and>
   WaitForComplete [store_inflight, NewMemoryStore 0, store_completed] ''k'' = Some None"
  using WaitForComplete_resolved
          [where obs = "[store_inflight, store_inflight]" and key = "''k''" and r = None
             and ms = store_completed and later = "[store_inflight]"
             and before = "[store_inflight, store_inflight]"]
        WaitForComplete_resolved
          [where obs = "[store_inflight, NewMemoryStore 0, store_completed]"
             and key = "''k''" and r = None and ms = "NewMemoryStore 0"
             and later = "[store_completed]" and before = "[store_inflight]"]
  by (simp add: Get_def store_inflight_def store_completed_def entry_inflight_def
        entry_completed_def WaitForComplete_pass_def StateProcessing_def StateComplete_def
        NewMemoryStore_def)




text \<open>
  Claim C7, amended. \<^verbatim>\<open>sweep\<close> returns nothing. It counts the entries it evicts, which
  is the number of entries the store lost and the number of expired entries it held, and
  prints that count when it is positive; when nothing was evicted it prints nothing.
\<close>

theorem sweep_prints_count:
  assumes "sweep now ms = (ms', lines)"
  shows "length (data ms) - length (data ms') =
           length (filter (\<lambda>x. expired now (ttl ms) (snd x)) (data ms)) \<and>
         lines = (if 0 < length (data ms) - length (data ms')
                  then [SweeperEvicted (length (data ms) - length (data ms'))] else [])"
proof -
  obtain kept evicted where r: "sweep_range now (ttl ms) (data ms) = (kept, evicted)"
    by (cases "sweep_range now (ttl ms) (data ms)")
  from r have kept: "kept = filter (\<lambda>x. \<not> expired now (ttl ms) (snd x)) (data ms)"
    using sweep_range_kept [of now "ttl ms" "data ms"] by simp
  from r have ev: "evicted = length (filter (\<lambda>x. expired now (ttl ms) (snd x)) (data ms))"
    using sweep_range_evicted [of now "ttl ms" "data ms"] by simp
  have "length (data ms) = length kept + evicted"
    unfolding kept ev using sum_length_filter_compl [of "\<lambda>x. expired now (ttl ms) (snd x)" "data ms"]
    by simp
  then have d: "length (data ms) - length kept = evicted" by simp
  from assms r have "ms' = ms\<lparr>data := kept\<rparr>" and
    "lines = (if evicted > 0 then [SweeperEvicted evicted] else [])"
    by (simp_all add: sweep_def)
  with d ev show ?thesis by simp
qed

text \<open>
  The theorem at work: the sweep that evicts the one entry of the store prints the
  count 1.
\<close>

theorem sweep_prints_count_witness:
  "sweep 7300 (store_completed\<lparr>ttl := 1\<rparr>) = (\<lparr>data = [], ttl = 1\<rparr>, [SweeperEvicted 1])"
  using sweep_prints_count [of 7300 "store_completed\<lparr>ttl := 1\<rparr>" "\<lparr>data = [], ttl = 1\<rparr>"
          "[SweeperEvicted 1]"]
  by (simp add: sweep_def expired_def ageInSeconds_def Seconds_int64_examples
        store_completed_def entry_completed_def)

text \<open>
  The count is not what \<^verbatim>\<open>sweep\<close> gives back on every run: a sweep that evicts nothing
  leaves the store as it was and reports no count at all, not the count 0.
\<close>

theorem sweep_reports_nothing_counterexample:
  "sweep 100 store_completed = (store_completed, []) \<and>
   snd (sweep 100 store_completed) \<noteq> [SweeperEvicted 0]"
  by (simp add: sweep_def expired_def ageInSeconds_def Seconds_int64_examples
        store_completed_def entry_completed_def)

text \<open>
  Claim C8. The sweeper's interval is the configured \<^verbatim>\<open>SweepInterval\<close>. The code does
  not do this: \<^verbatim>\<open>StartSweeper\<close> builds its ticker from the constant
  \<^verbatim>\<open>10 * time.Minute\<close> and the store never receives \<^verbatim>\<open>SweepInterval\<close>. With the
  default configuration changed to sweep every minute, the ticker still has a period of
  ten minutes.
\<close>

theorem StartSweeper_ignores_SweepInterval:
  "snd (main_wiring (Default\<lparr>SweepInterval := Minute\<rparr>)) = 10 * Minute \<and>
   snd (main_wiring (Default\<lparr>SweepInterval := Minute\<rparr>)) \<noteq>
     SweepInterval (Default\<lparr>SweepInterval := Minute\<rparr>)"
  by (simp add: main_wiring_def StartSweeper_def Default_def Minute_def)

section \<open>The gateway: claims\<close>

lemmas eval = run_def boot_def Idempotency_step_def Let_def goto_def emit_def Get_def Set_def
  NewMemoryStore_def charge_def record_calls_def example_hash_def 
  StateProcessing_def StateComplete_def WaitForComplete_pass_def
  check_existing_def replayResponse_def

lemma Run_changes_store:
  assumes "store (step hb nxt g (Run i)) \<noteq> store g"
  shows "(\<exists>rawBody bodyHash. at (threads g ! i) = FirstSight rawBody bodyHash) \<or>
         (\<exists>bodyHash code recorded. at (threads g ! i) = Served bodyHash code recorded)"
  using assms
  by (cases "at (threads g ! i)")
     (auto simp: Idempotency_step_def Let_def split: option.splits wait.splits prod.splits if_splits)

lemma store_after_distinct: "distinct (map fst (store_after t tr))"
proof (induction tr rule: rev_induct)
  case Nil
  show ?case by (simp add: store_after_def)
next
  case (snoc ev tr)
  then show ?case
    by (cases ev) (simp_all add: distinct_update sweep_range_kept distinct_keys_filter)
qed

lemma run_keys_distinct:
  "distinct (map fst (data (store (run hb nxt (boot t now d) schedule))))"
  using gateway_inv_run [of hb t nxt now d schedule]
  by (simp add: gateway_inv_def store_after_distinct)

text \<open>
  Claim C6. A request with an empty key is answered InvalidKey with no access to the
  store. In every run of the gateway a goroutine whose request has an empty key has made
  no call on the store or the handler and is either at its start or done with
  InvalidKey; its step ends in InvalidKey and leaves the store and the trace as they
  were, so no entry is created.
\<close>

theorem empty_key_rejected:
  assumes "g = run hashBody nxt (boot t now d) schedule"
    and "i < length (threads g)" and "IdempotencyKey (req (threads g ! i)) = []"
  shows "accesses_by i (trace g) = [] \<and>
         (at (threads g ! i) = Start \<or> at (threads g ! i) = Done InvalidKey) \<and>
         at (threads (step hashBody nxt g (Run i)) ! i) = Done InvalidKey \<and>
         store (step hashBody nxt g (Run i)) = store g \<and>
         trace (step hashBody nxt g (Run i)) = trace g"
proof -
  have "gateway_inv hashBody t g" unfolding assms(1) by (rule gateway_inv_run)
  with assms(2) have loc: "local_inv hashBody i (threads g ! i) (trace g)"
    by (simp add: gateway_inv_def)
  from loc assms(3) have pc: "at (threads g ! i) = Start \<or> at (threads g ! i) = Done InvalidKey"
    by (auto simp: local_inv_def split: pc.splits outcome.splits)
  with loc have acc: "accesses_by i (trace g) = []"
    by (auto simp: local_inv_def)
  from pc show ?thesis
  proof
    assume "at (threads g ! i) = Start"
    with assms(2,3) have "step hashBody nxt g (Run i) = goto i (Done InvalidKey) g"
      by (simp add: Idempotency_step_def)
    with assms(2) pc acc show ?thesis by simp
  next
    assume fin: "at (threads g ! i) = Done InvalidKey"
    with assms(2) have "step hashBody nxt g (Run i) = g"
      by (simp add: Idempotency_step_def)
    with fin acc show ?thesis by simp
  qed
qed

text \<open>The theorem at work on a request without a key.\<close>

theorem empty_key_rejected_witness:
  "accesses_by 0 (trace (run example_hash charge (boot (24 * Hour) 0 0) [Arrive request_nokey])) = [] \<and>
   at (threads (run example_hash charge (boot (24 * Hour) 0 0) [Arrive request_nokey, Run 0]) ! 0) = Done InvalidKey \<and>
   store (run example_hash charge (boot (24 * Hour) 0 0) [Arrive request_nokey, Run 0]) = NewMemoryStore (24 * Hour)"
  using empty_key_rejected [OF refl, of 0 example_hash charge "24 * Hour" 0 0 "[Arrive request_nokey]"]
  by (simp add: eval request_nokey_def)

text \<open>
  Claim C4. The store is mutated by the two \<^verbatim>\<open>Set\<close> calls of the first-sight branch
  only. In every run the map is what the \<^verbatim>\<open>Set\<close> calls and the sweeps of the trace
  make of the empty map; a goroutine that ended in Replayed, Conflict, InvalidKey or with
  an unreadable body has made no \<^verbatim>\<open>Set\<close> call; one that ended in Executed has made
  two, for its key, the first PROCESSING and the second COMPLETE with the same hash and
  the recorded result; one that is still running has made none, or the first of the two;
  and a step of a goroutine changes the store only when it is one of the two \<^verbatim>\<open>Set\<close>
  calls.
\<close>

theorem store_written_only_by_Set:
  assumes "g = run hashBody nxt (boot t now d) schedule"
  shows "data (store g) = store_after t (trace g) \<and>
     (\<forall>i < length (threads g).
        (case at (threads g ! i) of
           Done result \<Rightarrow>
             (case result of
                Executed code recorded \<Rightarrow>
                  (\<exists>first second.
                     writes_by i (trace g) =
                       [(IdempotencyKey (req (threads g ! i)), first),
                        (IdempotencyKey (req (threads g ! i)), second)] \<and>
                     State first = StateProcessing \<and> State second = StateComplete \<and>
                     BodyHash second = BodyHash first \<and>
                     StatusCode second = code \<and> ResponseBody second = recorded)
              | Replayed code recorded \<Rightarrow> writes_by i (trace g) = []
              | Conflict \<Rightarrow> writes_by i (trace g) = []
              | InvalidKey \<Rightarrow> writes_by i (trace g) = []
              | ReadError \<Rightarrow> writes_by i (trace g) = [])
         | Serving rawBody bodyHash \<Rightarrow>
             (\<exists>first. writes_by i (trace g) = [(IdempotencyKey (req (threads g ! i)), first)] \<and>
                State first = StateProcessing)
         | Served bodyHash code recorded \<Rightarrow>
             (\<exists>first. writes_by i (trace g) = [(IdempotencyKey (req (threads g ! i)), first)] \<and>
                State first = StateProcessing)
         | Start \<Rightarrow> writes_by i (trace g) = []
         | Waiting existing bodyHash \<Rightarrow> writes_by i (trace g) = []
         | FirstSight rawBody bodyHash \<Rightarrow> writes_by i (trace g) = [])) \<and>
     (\<forall>i. store (step hashBody nxt g (Run i)) \<noteq> store g \<longrightarrow>
        (\<exists>rawBody bodyHash. at (threads g ! i) = FirstSight rawBody bodyHash) \<or>
        (\<exists>bodyHash code recorded. at (threads g ! i) = Served bodyHash code recorded))"
proof -
  have inv: "gateway_inv hashBody t g" unfolding assms(1) by (rule gateway_inv_run)
  have 1: "data (store g) = store_after t (trace g)"
    using inv by (simp add: gateway_inv_def)
  have 2: "case at (threads g ! i) of
           Done result \<Rightarrow>
             (case result of
                Executed code recorded \<Rightarrow>
                  (\<exists>first second.
                     writes_by i (trace g) =
                       [(IdempotencyKey (req (threads g ! i)), first),
                        (IdempotencyKey (req (threads g ! i)), second)] \<and>
                     State first = StateProcessing \<and> State second = StateComplete \<and>
                     BodyHash second = BodyHash first \<and>
                     StatusCode second = code \<and> ResponseBody second = recorded)
              | Replayed code recorded \<Rightarrow> writes_by i (trace g) = []
              | Conflict \<Rightarrow> writes_by i (trace g) = []
              | InvalidKey \<Rightarrow> writes_by i (trace g) = []
              | ReadError \<Rightarrow> writes_by i (trace g) = [])
         | Serving rawBody bodyHash \<Rightarrow>
             (\<exists>first. writes_by i (trace g) = [(IdempotencyKey (req (threads g ! i)), first)] \<and>
                State first = StateProcessing)
         | Served bodyHash code recorded \<Rightarrow>
             (\<exists>first. writes_by i (trace g) = [(IdempotencyKey (req (threads g ! i)), first)] \<and>
                State first = StateProcessing)
         | Start \<Rightarrow> writes_by i (trace g) = []
         | Waiting existing bodyHash \<Rightarrow> writes_by i (trace g) = []
         | FirstSight rawBody bodyHash \<Rightarrow> writes_by i (trace g) = []"
    if "i < length (threads g)" for i
  proof -
    from inv that have loc: "local_inv hashBody i (threads g ! i) (trace g)"
      by (simp add: gateway_inv_def)
    show ?thesis
    proof (cases "at (threads g ! i)")
      case Start
      with loc show ?thesis by (simp add: local_inv_def accesses_by_Nil_writes)
    next
      case (Waiting existing bodyHash)
      with loc show ?thesis by (simp add: local_inv_def)
    next
      case (FirstSight rawBody bodyHash)
      with loc show ?thesis by (simp add: local_inv_def)
    next
      case (Serving rawBody bodyHash)
      with loc show ?thesis by (auto simp: local_inv_def)
    next
      case (Served bodyHash code recorded)
      with loc show ?thesis by (auto simp: local_inv_def)
    next
      case (Done result)
      with loc show ?thesis
        by (cases result) (auto simp: local_inv_def accesses_by_Nil_writes)
    qed
  qed
  from 1 2 Run_changes_store [of hashBody nxt g] show ?thesis by blast
qed

text \<open>
  The theorem at work: after the first request for \<open>k1\<close> has run, a request with
  another body ends in Conflict without a \<^verbatim>\<open>Set\<close> call, and the first request made
  its two.
\<close>

theorem store_written_only_by_Set_witness:
  "at (threads (run example_hash charge (boot (24 * Hour) 0 0) (first_then_retries @ [Run 2])) ! 2) = Done Conflict \<and>
   writes_by 2 (trace (run example_hash charge (boot (24 * Hour) 0 0) (first_then_retries @ [Run 2]))) = [] \<and>
   at (threads (run example_hash charge (boot (24 * Hour) 0 0) (first_then_retries @ [Run 2])) ! 0) = Done (Executed 201 [0, 1]) \<and>
   map (State \<circ> snd) (writes_by 0 (trace (run example_hash charge (boot (24 * Hour) 0 0) (first_then_retries @ [Run 2])))) =
     [StateProcessing, StateComplete]"
  using store_written_only_by_Set [OF refl, of example_hash charge "24 * Hour" 0 0 "first_then_retries @ [Run 2]"]
  by (simp add: eval first_then_retries_def request_k1_def writes_by_def store_after_def)

text \<open>
  Claim C3. When the entry of a key is COMPLETE, it holds the hash of the body and the
  recorded status and bytes of a call of the handler for that key (the original
  execution), and a request for the key that starts now is answered in one step: with
  the same body, Replayed with exactly that status and those bytes; with a body whose
  digest differs, Conflict. The step calls neither \<^verbatim>\<open>Set\<close> nor the handler: the store
  and the handler's state are unchanged and the trace grows by the \<^verbatim>\<open>Get\<close> alone.
\<close>

theorem completed_entry_replayed:
  assumes "g = run hashBody nxt (boot t now d) schedule"
    and "i < length (threads g)" and "at (threads g ! i) = Start"
    and "IdempotencyKey (req (threads g ! i)) = key" and "key \<noteq> []"
    and "Body (req (threads g ! i)) = Some payload"
    and "Get (store g) key = Some entry" and "State entry = StateComplete"
  shows "\<exists>j original calls.
           EvServe j key original calls \<in> set (trace g) \<and>
           BodyHash entry = hashBody original \<and>
           StatusCode entry = statusCode (record_calls calls) \<and>
           ResponseBody entry = body (record_calls calls) \<and>
           (payload = original \<longrightarrow>
              at (threads (step hashBody nxt g (Run i)) ! i) =
                Done (Replayed (statusCode (record_calls calls)) (body (record_calls calls)))) \<and>
           (hashBody payload \<noteq> hashBody original \<longrightarrow>
              at (threads (step hashBody nxt g (Run i)) ! i) = Done Conflict) \<and>
           store (step hashBody nxt g (Run i)) = store g \<and>
           downstream (step hashBody nxt g (Run i)) = downstream g \<and>
           trace (step hashBody nxt g (Run i)) = trace g @ [EvGet i key (Some entry)]"
proof -
  have inv: "gateway_inv hashBody t g" unfolding assms(1) by (rule gateway_inv_run)
  from gateway_inv_entries [OF inv assms(7)] assms(8)
  obtain j original calls where orig: "EvServe j key original calls \<in> set (trace g)"
      "BodyHash entry = hashBody original"
      "StatusCode entry = statusCode (record_calls calls)"
      "ResponseBody entry = body (record_calls calls)"
    by (auto simp: entry_ok_def StateProcessing_def StateComplete_def)
  from assms(8) have "State entry \<noteq> StateProcessing"
    by (simp add: StateProcessing_def StateComplete_def)
  with assms have eq: "step hashBody nxt g (Run i) =
      emit (EvGet i key (Some entry))
        (goto i (Done (check_existing entry (hashBody payload))) g)"
    by (simp add: Idempotency_step_def Let_def)
  have "(payload = original \<longrightarrow>
              at (threads (step hashBody nxt g (Run i)) ! i) =
                Done (Replayed (statusCode (record_calls calls)) (body (record_calls calls)))) \<and>
           (hashBody payload \<noteq> hashBody original \<longrightarrow>
              at (threads (step hashBody nxt g (Run i)) ! i) = Done Conflict) \<and>
           store (step hashBody nxt g (Run i)) = store g \<and>
           downstream (step hashBody nxt g (Run i)) = downstream g \<and>
           trace (step hashBody nxt g (Run i)) = trace g @ [EvGet i key (Some entry)]"
    unfolding eq using assms(2) orig
    by (simp add: check_existing_def replayResponse_def)
  with orig show ?thesis by blast
qed

text \<open>
  The theorem at work: after the first request for \<open>k1\<close> got 201 with the bytes 0, 1,
  the retry with the same body is replayed the same answer, the request with another
  body gets Conflict, and the handler has run once.
\<close>

theorem completed_entry_replayed_witness:
  "at (threads (run example_hash charge (boot (24 * Hour) 0 0) (first_then_retries @ [Run 1])) ! 1) =
     Done (Replayed 201 [0, 1]) \<and>
   at (threads (run example_hash charge (boot (24 * Hour) 0 0) first_then_retries) ! 0) =
     Done (Executed 201 [0, 1]) \<and>
   at (threads (run example_hash charge (boot (24 * Hour) 0 0) (first_then_retries @ [Run 2])) ! 2) =
     Done Conflict \<and>
   downstream (run example_hash charge (boot (24 * Hour) 0 0) (first_then_retries @ [Run 1, Run 2])) = 1"
  using completed_entry_replayed [OF refl, of 1 example_hash charge "24 * Hour" 0 0
          first_then_retries "''k1''" "[1]"
          "\<lparr>State = StateComplete, BodyHash = ''a'', StatusCode = 201,
             ResponseBody = [0, 1], CreatedAt = 0\<rparr>"]
        completed_entry_replayed [OF refl, of 2 example_hash charge "24 * Hour" 0 0
          first_then_retries "''k1''" "[2]"
          "\<lparr>State = StateComplete, BodyHash = ''a'', StatusCode = 201,
             ResponseBody = [0, 1], CreatedAt = 0\<rparr>"]
  by (simp add: eval first_then_retries_def request_k1_def)

text \<open>
  A PROCESSING entry among the \<^verbatim>\<open>Set\<close> calls of a goroutine is the first of its two:
  it is stored under the key of the goroutine's request and holds the hash of its body.
\<close>

lemma writes_by_mem:
  "EvSet j key entry \<in> set tr \<Longrightarrow> (key, entry) \<in> set (writes_by j tr)"
proof (induction tr)
  case Nil
  then show ?case by simp
next
  case (Cons ev tr)
  then show ?case by (cases ev) (auto simp: writes_by_def)
qed

lemma first_write_of_request:
  assumes loc: "local_inv hashBody j th tr" and w: "(key, entry) \<in> set (writes_by j tr)"
    and p: "State entry = StateProcessing"
  shows "IdempotencyKey (req th) = key \<and>
         (\<exists>first. Body (req th) = Some first \<and> BodyHash entry = hashBody first)"
proof (cases "at th")
  case Start
  with loc w show ?thesis by (simp add: local_inv_def accesses_by_Nil_writes)
next
  case (Waiting existing bodyHash)
  with loc w show ?thesis by (simp add: local_inv_def)
next
  case (FirstSight rawBody bodyHash)
  with loc w show ?thesis by (simp add: local_inv_def)
next
  case (Serving rawBody bodyHash)
  with loc w show ?thesis by (auto simp: local_inv_def)
next
  case (Served bodyHash code recorded)
  with loc w show ?thesis by (auto simp: local_inv_def)
next
  case (Done result)
  with loc w p show ?thesis
    by (cases result)
       (auto simp: local_inv_def accesses_by_Nil_writes StateProcessing_def StateComplete_def)
qed

text \<open>
  Claim C10, amended. When a goroutine waits on a PROCESSING entry and finds the key
  absent at a pass of \<^verbatim>\<open>WaitForComplete\<close> (at the call, or at a wake-up after the
  sweeper evicted the entry), that pass ends the request without a call of the handler.
  The snapshot it holds is the entry its \<^verbatim>\<open>Get\<close> returned, the PROCESSING entry that a
  request for the same key stored with the hash of its body. The pass compares the hash
  of the goroutine's own body with the hash of the snapshot: Conflict when they differ,
  and otherwise the replay of the snapshot, whose status is 0 and whose body is empty.
  The pass leaves the store and the handler's state unchanged, and the goroutine has
  called neither \<^verbatim>\<open>Set\<close> nor the handler.
\<close>

theorem evicted_while_waiting:
  assumes "g = run hashBody nxt (boot t now d) schedule"
    and "i < length (threads g)" and "at (threads g ! i) = Waiting existing bodyHash"
    and "Get (store g) (IdempotencyKey (req (threads g ! i))) = None"
  shows "State existing = StateProcessing \<and>
         EvGet i (IdempotencyKey (req (threads g ! i))) (Some existing) \<in> set (trace g) \<and>
         (\<exists>j first. j < length (threads g) \<and>
            EvSet j (IdempotencyKey (req (threads g ! i))) existing \<in> set (trace g) \<and>
            IdempotencyKey (req (threads g ! j)) = IdempotencyKey (req (threads g ! i)) \<and>
            Body (req (threads g ! j)) = Some first \<and>
            BodyHash existing = hashBody first) \<and>
         (\<exists>rawBody. Body (req (threads g ! i)) = Some rawBody \<and> bodyHash = hashBody rawBody) \<and>
         at (threads (step hashBody nxt g (Run i)) ! i) =
           Done (if BodyHash existing \<noteq> bodyHash then Conflict else Replayed 0 []) \<and>
         store (step hashBody nxt g (Run i)) = store g \<and>
         downstream (step hashBody nxt g (Run i)) = downstream g \<and>
         serves_by i (trace (step hashBody nxt g (Run i))) = [] \<and>
         writes_by i (trace (step hashBody nxt g (Run i))) = []"
proof -
  let ?k = "IdempotencyKey (req (threads g ! i))"
  have inv: "gateway_inv hashBody t g" unfolding assms(1) by (rule gateway_inv_run)
  with assms(2) have "local_inv hashBody i (threads g ! i) (trace g)"
    by (simp add: gateway_inv_def)
  with assms(3) have loc: "writes_by i (trace g) = []" "serves_by i (trace g) = []"
      "State existing = StateProcessing" "StatusCode existing = 0" "ResponseBody existing = []"
      "\<exists>rawBody. Body (req (threads g ! i)) = Some rawBody \<and> bodyHash = hashBody rawBody"
    and got: "EvGet i ?k (Some existing) \<in> set (accesses_by i (trace g))"
    by (simp_all add: local_inv_def)
  from got have get: "EvGet i ?k (Some existing) \<in> set (trace g)"
    by (simp add: accesses_by_def)
  with inv obtain j where set: "EvSet j ?k existing \<in> set (trace g)"
    unfolding gateway_inv_def by blast
  with inv have j: "j < length (threads g)"
    unfolding gateway_inv_def by fastforce
  with inv have "local_inv hashBody j (threads g ! j) (trace g)"
    by (simp add: gateway_inv_def)
  from first_write_of_request [OF this writes_by_mem [OF set] loc(3)] j set
  have origin: "\<exists>j first. j < length (threads g) \<and> EvSet j ?k existing \<in> set (trace g) \<and>
            IdempotencyKey (req (threads g ! j)) = ?k \<and>
            Body (req (threads g ! j)) = Some first \<and>
            BodyHash existing = hashBody first"
    by blast
  from assms(4) have "WaitForComplete_pass (store g) ?k = Returned None"
    by (simp add: WaitForComplete_pass_def Get_def)
  with assms(2,3) have eq: "step hashBody nxt g (Run i) =
      emit (EvWait i ?k) (goto i (Done (check_existing existing bodyHash)) g)"
    by (simp add: Idempotency_step_def Let_def)
  have "at (threads (step hashBody nxt g (Run i)) ! i) =
           Done (if BodyHash existing \<noteq> bodyHash then Conflict else Replayed 0 []) \<and>
         store (step hashBody nxt g (Run i)) = store g \<and>
         downstream (step hashBody nxt g (Run i)) = downstream g \<and>
         serves_by i (trace (step hashBody nxt g (Run i))) = [] \<and>
         writes_by i (trace (step hashBody nxt g (Run i))) = []"
    unfolding eq using assms(2) loc
    by (simp add: check_existing_def replayResponse_def)
  with loc(3,6) get origin show ?thesis by blast
qed

text \<open>
  The theorem at work, with a time-to-live of one nanosecond: the duplicate has read
  the PROCESSING entry, two hours later the sweeper evicts it, and the duplicate's first
  pass finds the key absent: it is replayed status 0 with an empty body, or gets
  Conflict when its body differs; the handler has not run.
\<close>

theorem evicted_while_waiting_witness:
  "at (threads (run example_hash charge (boot 1 0 0) (duplicate_in_flight [1] @ [Tick 7200, Sweep])) ! 1) =
     Waiting \<lparr>State = StateProcessing, BodyHash = ''a'', StatusCode = 0, ResponseBody = [],
       CreatedAt = 0\<rparr> ''a'' \<and>
   at (threads (run example_hash charge (boot 1 0 0) (duplicate_in_flight [1] @ [Tick 7200, Sweep, Run 1])) ! 1) =
     Done (Replayed 0 []) \<and>
   at (threads (run example_hash charge (boot 1 0 0) (duplicate_in_flight [2] @ [Tick 7200, Sweep, Run 1])) ! 1) =
     Done Conflict \<and>
   downstream (run example_hash charge (boot 1 0 0) (duplicate_in_flight [1] @ [Tick 7200, Sweep, Run 1])) = 0"
  using evicted_while_waiting [OF refl, of 1 example_hash charge 1 0 0
          "duplicate_in_flight [1] @ [Tick 7200, Sweep]"
          "\<lparr>State = StateProcessing, BodyHash = ''a'', StatusCode = 0, ResponseBody = [],
             CreatedAt = 0\<rparr>" "''a''"]
        evicted_while_waiting [OF refl, of 1 example_hash charge 1 0 0
          "duplicate_in_flight [2] @ [Tick 7200, Sweep]"
          "\<lparr>State = StateProcessing, BodyHash = ''a'', StatusCode = 0, ResponseBody = [],
             CreatedAt = 0\<rparr>" "''b''"]
  by (simp add: eval duplicate_in_flight_def request_k1_def sweep_def expired_def
        ageInSeconds_def Seconds_int64_examples)

text \<open>
  That the entry becomes absent while the duplicate is parked is not enough. The sweeper
  does not wake the waiters; the duplicate looks again after the next \<^verbatim>\<open>Set\<close>. Here
  the duplicate, with another body, is parked on the PROCESSING entry, the sweeper evicts
  the entry, the first request then finishes and stores its COMPLETE entry, and the
  duplicate wakes to find it: it is replayed the answer of the first request, neither
  Conflict nor the snapshot.
\<close>

theorem evicted_then_completed_counterexample:
  "at (threads (run example_hash charge (boot 1 0 0)
       (duplicate_in_flight [2] @ [Run 1, Tick 7200, Sweep])) ! 1) =
     Waiting \<lparr>State = StateProcessing, BodyHash = example_hash [1], StatusCode = 0,
       ResponseBody = [], CreatedAt = 0\<rparr> (example_hash [2]) \<and>
   example_hash [2] \<noteq> example_hash [1] \<and>
   Get (store (run example_hash charge (boot 1 0 0)
       (duplicate_in_flight [2] @ [Run 1]))) ''k1'' \<noteq> None \<and>
   Get (store (run example_hash charge (boot 1 0 0)
       (duplicate_in_flight [2] @ [Run 1, Tick 7200, Sweep]))) ''k1'' = None \<and>
   map at (threads (run example_hash charge (boot 1 0 0)
       (duplicate_in_flight [2] @ [Run 1, Tick 7200, Sweep, Run 0, Run 0, Run 1]))) =
     [Done (Executed 201 [0, 1]), Done (Replayed 201 [0, 1])]"
  by (simp add: eval duplicate_in_flight_def request_k1_def sweep_def expired_def
        ageInSeconds_def Seconds_int64_examples)

text \<open>
  The in-flight path in general: once \<^verbatim>\<open>WaitForComplete\<close> returns an entry, the
  waiting goroutine replays it, whatever the hash of its own body.
\<close>

lemma waiting_replays_completed:
  assumes "i < length (threads g)" and "at (threads g ! i) = Waiting existing bodyHash"
    and "Get (store g) (IdempotencyKey (req (threads g ! i))) = Some completed"
    and "State completed = StateComplete"
  shows "at (threads (step hashBody nxt g (Run i)) ! i) =
           Done (Replayed (StatusCode completed) (ResponseBody completed))"
proof -
  from assms(3,4) have "WaitForComplete_pass (store g) (IdempotencyKey (req (threads g ! i))) =
      Returned (Some completed)"
    by (simp add: WaitForComplete_pass_def Get_def)
  with assms(1,2) show ?thesis
    by (simp add: Idempotency_step_def Let_def replayResponse_def)
qed

text \<open>
  Claim C1. A request that found its key PROCESSING and whose body hash differs from
  the entry's must get Conflict once the entry resolves. The code does not do this: when
  \<^verbatim>\<open>WaitForComplete\<close> returns an entry, line 82 replays it and returns before the
  comparison of line 88. Here the second request has another body and another hash, and
  is replayed the answer of the first.
\<close>

theorem in_flight_mismatch_replayed:
  "example_hash [2] \<noteq> example_hash [1] \<and>
   at (threads (run example_hash charge (boot (24 * Hour) 0 0) (duplicate_in_flight [2])) ! 1) =
     Waiting \<lparr>State = StateProcessing, BodyHash = example_hash [1], StatusCode = 0,
       ResponseBody = [], CreatedAt = 0\<rparr> (example_hash [2]) \<and>
   map at (threads (run example_hash charge (boot (24 * Hour) 0 0)
       (duplicate_in_flight [2] @ [Run 0, Run 0, Run 1]))) =
     [Done (Executed 201 [0, 1]), Done (Replayed 201 [0, 1])]"
  by (simp add: eval duplicate_in_flight_def request_k1_def)

text \<open>
  Claim C2. For one key and one payload the handler runs once, whatever the number of
  calls. The code does not ensure this: \<^verbatim>\<open>Get\<close> and the first \<^verbatim>\<open>Set\<close> are two
  critical sections, and two requests that both call \<^verbatim>\<open>Get\<close> before either calls
  \<^verbatim>\<open>Set\<close> both find the key absent. Here the handler runs twice, both requests are
  answered as fresh executions, and their answers differ.
\<close>

theorem concurrent_first_sight_executes_twice:
  "map at (threads (run example_hash charge (boot (24 * Hour) 0 0) race_schedule)) =
     [Done (Executed 201 [0, 1]), Done (Executed 201 [1, 1])] \<and>
   downstream (run example_hash charge (boot (24 * Hour) 0 0) race_schedule) = 2 \<and>
   serves_by 0 (trace (run example_hash charge (boot (24 * Hour) 0 0) race_schedule)) =
     [(''k1'', [1], [WriteHeader 201, Write [0, 1]])] \<and>
   serves_by 1 (trace (run example_hash charge (boot (24 * Hour) 0 0) race_schedule)) =
     [(''k1'', [1], [WriteHeader 201, Write [1, 1]])]"
  by (simp add: eval race_schedule_def request_k1_def serves_by_def)

end
